theory Spec2Isabelle
  imports Complex_Main "HOL-Library.Word" "HOL-Library.AList"
begin

unbundle bit_operations_syntax

section \<open>JavaScript containers and values\<close>

text \<open>
  A JavaScript \<open>Set\<close> iterates in insertion order and holds no duplicates: it is a list
  to which an element is appended only when it is new. \<open>new Set(array)\<close> keeps the first
  occurrence of each element. A \<open>Map\<close> is an association list: \<open>Map.set\<close> on a present
  key keeps the key's position (\<open>AList.update\<close>), on a new key appends the pair;
  \<open>Map.delete\<close> is \<open>AList.delete\<close>, \<open>Map.get\<close> is \<open>map_of\<close>, \<open>Map.size\<close> is
  \<open>length\<close>.
\<close>

definition set_add :: "'a \<Rightarrow> 'a list \<Rightarrow> 'a list" where
  "set_add x xs = (if x \<in> set xs then xs else xs @ [x])"

definition set_delete :: "'a \<Rightarrow> 'a list \<Rightarrow> 'a list" where
  "set_delete x xs = removeAll x xs"

definition new_Set :: "'a list \<Rightarrow> 'a list" where
  "new_Set xs = fold set_add xs []"

text \<open>A for-of loop whose body may fail to return: the first \<open>None\<close> ends it.\<close>

fun forEachM :: "('a \<Rightarrow> 's \<Rightarrow> 's option) \<Rightarrow> 'a list \<Rightarrow> 's \<Rightarrow> 's option" where
  "forEachM f [] s = Some s"
| "forEachM f (x # xs) s = (case f x s of None \<Rightarrow> None | Some s' \<Rightarrow> forEachM f xs s')"

text \<open>A stored value is the caller's value or a \<open>Buffer\<close> of bytes (\<open>value: T | Buffer\<close>).\<close>

type_synonym bytes = "8 word list"

datatype 'v stored = Plain 'v | Buffer bytes

section \<open>types.ts\<close>

record 'v CacheItem =
  item_value :: "'v stored"
  createdAt :: int
  expiresAt :: "int option"
  staleAt :: "int option"
  dependsOn :: "string list"
  dependents :: "string list"
  tags :: "string list"
  accessCount :: nat
  lastAccessed :: int
  compressed :: bool
  originalSize :: nat
  compressedSize :: nat

record CacheOptions =
  ttl :: "int option"
  staleTtl :: "int option"
  opt_dependsOn :: "string list option"
  opt_tags :: "string list option"
  testAwaitBackground :: bool

definition no_options :: CacheOptions where
  "no_options = \<lparr>ttl = None, staleTtl = None, opt_dependsOn = None, opt_tags = None,
     testAwaitBackground = False\<rparr>"

record CacheStats =
  hits :: nat
  misses :: nat
  evictions :: nat
  keyCount :: nat
  totalAccesses :: nat

datatype algorithm = Gzip | Brotli | Lz4

record CompressionConfig =
  c_enabled :: bool
  c_algorithm :: algorithm
  c_threshold :: nat

record 'v CircuitBreakerConfig =
  cb_enabled :: bool
  failureThreshold :: nat
  recoveryTimeout :: int
  fallback :: "(string \<Rightarrow> 'v) option"
  cfg_monitorWindow :: "int option"

text \<open>A JavaScript string read by code unit (\<open>charCodeAt\<close>) is a list of 16-bit units.\<close>

type_synonym jsstring = "16 word list"

datatype partition_strategy = Hash | Range | Custom

record PartitioningConfig =
  p_enabled :: bool
  strategy :: partition_strategy
  partitions :: nat
  partitionKey :: "(jsstring \<Rightarrow> jsstring) option"

datatype policy = LRU | TTL | Manual | LFU

record 'v CacheConfig =
  maxItems :: nat
  defaultTtl :: int
  staleWhileRevalidate :: bool
  evictionPolicy :: policy
  compression :: CompressionConfig
  cfg_circuitBreaker :: "'v CircuitBreakerConfig"
  partitioning :: PartitioningConfig

datatype mode = Closed | Open | HalfOpen

record CircuitBreakerState =
  state :: mode
  failureCount :: nat
  lastFailureTime :: int
  nextAttemptTime :: int

record PartitionInfo =
  p_id :: nat
  p_keyCount :: nat
  p_memoryUsage :: nat
  p_hitRate :: real

record CacheGroup =
  group_name :: string
  group_keys :: "string list"

record CacheTag =
  tag_name :: string
  tag_keys :: "string list"
  tag_createdAt :: int

text \<open>The constructor's defaults.\<close>

definition default_config :: "'v CacheConfig" where
  "default_config = \<lparr>maxItems = 1000, defaultTtl = 0, staleWhileRevalidate = False,
     evictionPolicy = LRU,
     compression = \<lparr>c_enabled = False, c_algorithm = Gzip, c_threshold = 1024\<rparr>,
     cfg_circuitBreaker = \<lparr>cb_enabled = False, failureThreshold = 5, recoveryTimeout = 30000,
       fallback = None, cfg_monitorWindow = None\<rparr>,
     partitioning = \<lparr>p_enabled = False, strategy = Hash, partitions = 4, partitionKey = None\<rparr>\<rparr>"

datatype error = Error string

section \<open>utils/CircuitBreaker.ts\<close>

record 'v CircuitBreaker =
  cb_state :: CircuitBreakerState
  cb_config :: "'v CircuitBreakerConfig"
  cb_failureCount :: nat
  monitorWindow :: "int list"

definition new_CircuitBreaker :: "'v CircuitBreakerConfig \<Rightarrow> 'v CircuitBreaker" where
  "new_CircuitBreaker cfg = \<lparr>cb_state = \<lparr>state = Closed, failureCount = 0, lastFailureTime = 0,
       nextAttemptTime = 0\<rparr>,
     cb_config = cfg, cb_failureCount = 0, monitorWindow = []\<rparr>"

definition onSuccess :: "'v CircuitBreaker \<Rightarrow> 'v CircuitBreaker" where
  "onSuccess cb = cb\<lparr>cb_failureCount := 0,
     cb_state := (cb_state cb)\<lparr>failureCount := 0, state := Closed\<rparr>,
     monitorWindow := []\<rparr>"

definition onFailure :: "int \<Rightarrow> 'v CircuitBreaker \<Rightarrow> 'v CircuitBreaker" where
  "onFailure now cb =
     (let n = cb_failureCount cb + 1;
          s1 = (cb_state cb)\<lparr>failureCount := n, lastFailureTime := now\<rparr>;
          windowSize = (case cfg_monitorWindow (cb_config cb) of
                          None \<Rightarrow> 60000
                        | Some w \<Rightarrow> if w = 0 then 60000 else w);
          window = filter (\<lambda>time. now - time < windowSize) (monitorWindow cb @ [now]);
          s2 = (if n \<ge> failureThreshold (cb_config cb)
                then s1\<lparr>state := Open, nextAttemptTime := now + recoveryTimeout (cb_config cb)\<rparr>
                else s1)
      in cb\<lparr>cb_failureCount := n, cb_state := s2, monitorWindow := window\<rparr>)"

text \<open>
  \<open>execute(key, operation, fallback)\<close> waits for the operation, so it runs in two
  parts. \<open>execute_enter\<close> is the part before the operation is called: the breaker is
  bypassed when it is not enabled, the call is rejected while the breaker is open and
  \<open>now\<close> is before \<open>nextAttemptTime\<close>, and is admitted otherwise (an open breaker
  becomes half-open). \<open>execute_settle\<close> is the part after the operation has returned
  or thrown (\<open>Inl\<close>), at clock \<open>now'\<close>.
\<close>

datatype 'a admission = Bypass | Reject "error + 'a" | Admit

definition execute_enter ::
  "int \<Rightarrow> string \<Rightarrow> (string \<Rightarrow> 'a) option \<Rightarrow> 'v CircuitBreaker \<Rightarrow> 'a admission \<times> 'v CircuitBreaker" where
  "execute_enter now key fb cb =
     (if \<not> cb_enabled (cb_config cb) then (Bypass, cb)
      else if state (cb_state cb) = Open
      then (if now < nextAttemptTime (cb_state cb)
            then (case fb of
                    Some f \<Rightarrow> (Reject (Inr (f key)), cb)
                  | None \<Rightarrow> (Reject (Inl (Error (''Circuit breaker is open for key: '' @ key))), cb))
            else (Admit, cb\<lparr>cb_state := (cb_state cb)\<lparr>state := HalfOpen\<rparr>\<rparr>))
      else (Admit, cb))"

definition execute_settle ::
  "int \<Rightarrow> string \<Rightarrow> (string \<Rightarrow> 'a) option \<Rightarrow> error + 'a \<Rightarrow> 'v CircuitBreaker \<Rightarrow>
   (error + 'a) \<times> 'v CircuitBreaker" where
  "execute_settle now' key fb outcome cb =
     (case outcome of
        Inr result \<Rightarrow> (Inr result, onSuccess cb)
      | Inl err \<Rightarrow>
          (case fb of
             Some f \<Rightarrow> (Inr (f key), onFailure now' cb)
           | None \<Rightarrow> (Inl err, onFailure now' cb)))"

text \<open>
  The operation acts on the state \<open>'s\<close> of its caller; it has no value at all (\<open>None\<close>)
  when it never returns. The result carries the number of times the operation was
  invoked.
\<close>

definition CircuitBreaker_execute ::
  "int \<Rightarrow> int \<Rightarrow> string \<Rightarrow> ('s \<Rightarrow> ((error + 'a) \<times> 's) option) \<Rightarrow> (string \<Rightarrow> 'a) option \<Rightarrow>
   'v CircuitBreaker \<Rightarrow> 's \<Rightarrow> ((error + 'a) \<times> nat \<times> 'v CircuitBreaker \<times> 's) option" where
  "CircuitBreaker_execute now now' key operation fb cb s =
     (case execute_enter now key fb cb of
        (Bypass, cb') \<Rightarrow>
          (case operation s of
             None \<Rightarrow> None
           | Some (r, s') \<Rightarrow> Some (r, 1, cb', s'))
      | (Reject r, cb') \<Rightarrow> Some (r, 0, cb', s)
      | (Admit, cb1) \<Rightarrow>
          (case operation s of
             None \<Rightarrow> None
           | Some (outcome, s') \<Rightarrow>
               Some (fst (execute_settle now' key fb outcome cb1), 1,
                     snd (execute_settle now' key fb outcome cb1), s')))"

section \<open>utils/Partitioning.ts\<close>

text \<open>A JavaScript number that is an integer or \<open>NaN\<close>.\<close>

datatype jsnum = Num int | NaN

text \<open>\<open>a % n\<close> for an integer \<open>a\<close>: the sign of the dividend, and \<open>NaN\<close> when \<open>n\<close> is 0.\<close>

definition js_rem :: "int \<Rightarrow> nat \<Rightarrow> jsnum" where
  "js_rem a n = (if n = 0 then NaN else Num (sgn a * (\<bar>a\<bar> mod int n)))"

record PartitioningUtil =
  pu_config :: PartitioningConfig
  pu_partitions :: "(nat \<times> PartitionInfo) list"

definition new_PartitioningUtil :: "PartitioningConfig \<Rightarrow> PartitioningUtil" where
  "new_PartitioningUtil cfg = \<lparr>pu_config = cfg,
     pu_partitions = map (\<lambda>i. (i, \<lparr>p_id = i, p_keyCount = 0, p_memoryUsage = 0, p_hitRate = 0\<rparr>))
                         [0..<partitions cfg]\<rparr>"

text \<open>
  One pass of the loop of \<open>hashPartition\<close>: \<open>hash << 5\<close> is a 32-bit shift, and
  \<open>hash & hash\<close> brings the sum back to 32 bits, so the arithmetic is that of \<open>32 word\<close>.
\<close>

definition hash_step :: "32 word \<Rightarrow> 16 word \<Rightarrow> 32 word" where
  "hash_step hash c = (let h = (push_bit 5 hash - hash) + ucast c in h AND h)"

definition hashPartition :: "PartitioningConfig \<Rightarrow> jsstring \<Rightarrow> jsnum" where
  "hashPartition cfg key = js_rem \<bar>sint (foldl hash_step 0 key)\<bar> (partitions cfg)"

text \<open>
  \<open>rangePartition\<close>: \<open>key.charAt(0)\<close> is the empty string for the empty key, and
  \<open>charCodeAt(0)\<close> of the empty string is \<open>NaN\<close>. The lower-case mapping of the
  JavaScript runtime is the parameter \<open>lowerCase\<close>, from a code unit to the units it
  is written as in lower case.
\<close>

definition charAt0 :: "jsstring \<Rightarrow> jsstring" where
  "charAt0 key = take 1 key"

definition toLowerCase :: "(16 word \<Rightarrow> jsstring) \<Rightarrow> jsstring \<Rightarrow> jsstring" where
  "toLowerCase lowerCase s = concat (map lowerCase s)"

definition rangePartition :: "(16 word \<Rightarrow> jsstring) \<Rightarrow> PartitioningConfig \<Rightarrow> jsstring \<Rightarrow> jsnum" where
  "rangePartition lowerCase cfg key =
     (case toLowerCase lowerCase (charAt0 key) of
        [] \<Rightarrow> NaN
      | charCode # _ \<Rightarrow> js_rem (uint charCode) (partitions cfg))"

definition customPartition :: "PartitioningConfig \<Rightarrow> jsstring \<Rightarrow> jsnum" where
  "customPartition cfg key = hashPartition cfg key"

definition getPartition :: "(16 word \<Rightarrow> jsstring) \<Rightarrow> PartitioningUtil \<Rightarrow> jsstring \<Rightarrow> jsnum" where
  "getPartition lowerCase pu key =
     (if \<not> p_enabled (pu_config pu) then Num 0
      else (let pkey = (case partitionKey (pu_config pu) of
                          Some f \<Rightarrow> f key
                        | None \<Rightarrow> key)
            in case strategy (pu_config pu) of
                 Hash \<Rightarrow> hashPartition (pu_config pu) pkey
               | Range \<Rightarrow> rangePartition lowerCase (pu_config pu) pkey
               | Custom \<Rightarrow> customPartition (pu_config pu) pkey))"

definition updatePartitionStats :: "nat \<Rightarrow> nat \<Rightarrow> nat \<Rightarrow> real \<Rightarrow> PartitioningUtil \<Rightarrow> PartitioningUtil" where
  "updatePartitionStats partitionId kc mu hr pu =
     (case map_of (pu_partitions pu) partitionId of
        None \<Rightarrow> pu
      | Some pinfo \<Rightarrow>
          pu\<lparr>pu_partitions := AList.update partitionId
                (pinfo\<lparr>p_keyCount := kc, p_memoryUsage := mu, p_hitRate := hr\<rparr>)
                (pu_partitions pu)\<rparr>)"

text \<open>
  \<open>isBalanced\<close> of the utility, over the reals. With no partition the average is
  \<open>0 / 0\<close>, and a comparison with \<open>NaN\<close> is false.
\<close>

definition PartitioningUtil_isBalanced :: "PartitioningUtil \<Rightarrow> bool" where
  "PartitioningUtil_isBalanced pu =
     (let keyCounts = map (\<lambda>p. real (p_keyCount (snd p))) (pu_partitions pu)
      in if keyCounts = [] then False
         else (let avg = sum_list keyCounts / real (length keyCounts);
                   variance = sum_list (map (\<lambda>c. (c - avg) ^ 2) keyCounts) / real (length keyCounts);
                   standardDeviation = sqrt variance
               in standardDeviation < avg * 0.2))"

section \<open>utils/compression.ts\<close>

text \<open>
  \<open>JSON.stringify\<close> (with the UTF-8 encoding of its result), \<open>JSON.parse\<close> and the
  zlib, brotli and lz4 libraries are parameters: \<open>None\<close> is a call that throws (for
  brotli and lz4 also a library that is not installed).
\<close>

record 'v codec =
  stringify :: "'v \<Rightarrow> bytes"
  parse :: "bytes \<Rightarrow> 'v option"
  gzip :: "bytes \<Rightarrow> bytes option"
  gunzip :: "bytes \<Rightarrow> bytes option"
  brotli_compress :: "bytes \<Rightarrow> bytes option"
  brotli_decompress :: "bytes \<Rightarrow> bytes option"
  lz4_encode :: "bytes \<Rightarrow> bytes option"
  lz4_decode :: "bytes \<Rightarrow> bytes option"

definition compressGzip :: "'v codec \<Rightarrow> bytes \<Rightarrow> bytes option" where
  "compressGzip cdc d = gzip cdc d"

definition decompressGzip :: "'v codec \<Rightarrow> bytes \<Rightarrow> bytes option" where
  "decompressGzip cdc d = gunzip cdc d"

definition compressBrotli :: "'v codec \<Rightarrow> bytes \<Rightarrow> bytes option" where
  "compressBrotli cdc d = (case brotli_compress cdc d of Some b \<Rightarrow> Some b | None \<Rightarrow> compressGzip cdc d)"

definition decompressBrotli :: "'v codec \<Rightarrow> bytes \<Rightarrow> bytes option" where
  "decompressBrotli cdc d = (case brotli_decompress cdc d of Some b \<Rightarrow> Some b | None \<Rightarrow> decompressGzip cdc d)"

definition compressLz4 :: "'v codec \<Rightarrow> bytes \<Rightarrow> bytes option" where
  "compressLz4 cdc d = (case lz4_encode cdc d of Some b \<Rightarrow> Some b | None \<Rightarrow> compressGzip cdc d)"

definition decompressLz4 :: "'v codec \<Rightarrow> bytes \<Rightarrow> bytes option" where
  "decompressLz4 cdc d = (case lz4_decode cdc d of Some b \<Rightarrow> Some b | None \<Rightarrow> decompressGzip cdc d)"

record compress_result =
  cr_data :: bytes
  cr_originalSize :: nat
  cr_compressedSize :: nat

definition CompressionUtil_compress :: "'v codec \<Rightarrow> 'v \<Rightarrow> CompressionConfig \<Rightarrow> compress_result" where
  "CompressionUtil_compress cdc v cfg =
     (let serialized = stringify cdc v;
          osize = length serialized
      in if osize < c_threshold cfg
         then \<lparr>cr_data = serialized, cr_originalSize = osize, cr_compressedSize = osize\<rparr>
         else (case (case c_algorithm cfg of
                       Gzip \<Rightarrow> compressGzip cdc serialized
                     | Brotli \<Rightarrow> compressBrotli cdc serialized
                     | Lz4 \<Rightarrow> compressLz4 cdc serialized) of
                 Some zipped \<Rightarrow>
                   \<lparr>cr_data = zipped, cr_originalSize = osize, cr_compressedSize = length zipped\<rparr>
               | None \<Rightarrow>
                   \<lparr>cr_data = serialized, cr_originalSize = osize, cr_compressedSize = osize\<rparr>))"

text \<open>\<open>decompress\<close> throws (\<open>None\<close>) when the library or \<open>JSON.parse\<close> does.\<close>

definition CompressionUtil_decompress :: "'v codec \<Rightarrow> bytes \<Rightarrow> algorithm \<Rightarrow> 'v option" where
  "CompressionUtil_decompress cdc d alg =
     (case (case alg of
              Gzip \<Rightarrow> decompressGzip cdc d
            | Brotli \<Rightarrow> decompressBrotli cdc d
            | Lz4 \<Rightarrow> decompressLz4 cdc d) of
        None \<Rightarrow> None
      | Some decompressed \<Rightarrow> parse cdc decompressed)"

section \<open>Cachly.ts: the entry store\<close>

text \<open>
  The fields of a \<open>Cachly\<close> instance. The tag index is the field \<open>tags\<close> of the source
  (here \<open>cache_tags\<close>, since \<open>tags\<close> is also a field of an item). Events, hooks, logging,
  monitoring, persistence and the memory estimate of \<open>updateStats\<close> do not influence
  the store and are left out; a group's advisory \<open>config\<close> payload is stored but never read.

  \<open>Date.now()\<close> is a parameter: \<open>now\<close> for the reading an operation takes in its body,
  and for the eviction loop a clock \<open>clk\<close>, whose value \<open>clk i\<close> is the reading of
  the loop's pass \<open>i\<close> (each pass of \<open>evictLRU\<close> and \<open>evictTTL\<close> reads the clock again).
\<close>

record 'v cache =
  items :: "(string \<times> 'v CacheItem) list"
  config :: "'v CacheConfig"
  cacheStats :: CacheStats
  circuitBreaker :: "'v CircuitBreaker option"
  partitioningUtil :: "PartitioningUtil option"
  cache_tags :: "(string \<times> CacheTag) list"
  groups :: "(string \<times> CacheGroup) list"

text \<open>
  The constructor. \<open>compressionUtil\<close> has no state and exists exactly when
  \<open>config.compression.enabled\<close> holds, so the model reads the configuration instead.
\<close>

definition new_Cachly :: "'v CacheConfig \<Rightarrow> 'v cache" where
  "new_Cachly cfg = \<lparr>items = [], config = cfg,
     cacheStats = \<lparr>hits = 0, misses = 0, evictions = 0, keyCount = 0, totalAccesses = 0\<rparr>,
     circuitBreaker = (if cb_enabled (cfg_circuitBreaker cfg)
                       then Some (new_CircuitBreaker (cfg_circuitBreaker cfg)) else None),
     partitioningUtil = (if p_enabled (partitioning cfg)
                         then Some (new_PartitioningUtil (partitioning cfg)) else None),
     cache_tags = [], groups = []\<rparr>"

definition isExpired :: "int \<Rightarrow> 'v CacheItem \<Rightarrow> bool" where
  "isExpired now item = (case expiresAt item of None \<Rightarrow> False | Some e \<Rightarrow> now > e)"

definition isStale :: "int \<Rightarrow> 'v CacheItem \<Rightarrow> bool" where
  "isStale now item = (case staleAt item of None \<Rightarrow> False | Some s \<Rightarrow> now > s)"

definition updateStats :: "'v cache \<Rightarrow> 'v cache" where
  "updateStats st = st\<lparr>cacheStats := (cacheStats st)\<lparr>keyCount := length (items st)\<rparr>\<rparr>"

text \<open>\<open>updateDependencies\<close>, \<open>removeDependencies\<close>: one pass of the for-of loop, then the loop.\<close>

definition add_dependent :: "string \<Rightarrow> string \<Rightarrow> 'v cache \<Rightarrow> 'v cache" where
  "add_dependent key dep st =
     (case map_of (items st) dep of
        None \<Rightarrow> st
      | Some depItem \<Rightarrow>
          st\<lparr>items := AList.update dep (depItem\<lparr>dependents := set_add key (dependents depItem)\<rparr>)
                         (items st)\<rparr>)"

definition updateDependencies :: "string \<Rightarrow> string list \<Rightarrow> 'v cache \<Rightarrow> 'v cache" where
  "updateDependencies key dependencies st = fold (add_dependent key) dependencies st"

definition remove_dependent :: "string \<Rightarrow> string \<Rightarrow> 'v cache \<Rightarrow> 'v cache" where
  "remove_dependent key dep st =
     (case map_of (items st) dep of
        None \<Rightarrow> st
      | Some depItem \<Rightarrow>
          st\<lparr>items := AList.update dep (depItem\<lparr>dependents := set_delete key (dependents depItem)\<rparr>)
                         (items st)\<rparr>)"

definition removeDependencies :: "string \<Rightarrow> string list \<Rightarrow> 'v cache \<Rightarrow> 'v cache" where
  "removeDependencies key dependencies st = fold (remove_dependent key) dependencies st"

text \<open>\<open>updateTags\<close>, \<open>removeTags\<close>.\<close>

definition add_tag :: "int \<Rightarrow> string \<Rightarrow> string \<Rightarrow> 'v cache \<Rightarrow> 'v cache" where
  "add_tag now key tag st =
     (let tagData = (case map_of (cache_tags st) tag of
                       None \<Rightarrow> \<lparr>tag_name = tag, tag_keys = [], tag_createdAt = now\<rparr>
                     | Some td \<Rightarrow> td)
      in st\<lparr>cache_tags := AList.update tag (tagData\<lparr>tag_keys := set_add key (tag_keys tagData)\<rparr>)
                              (cache_tags st)\<rparr>)"

definition updateTags :: "int \<Rightarrow> string \<Rightarrow> string list \<Rightarrow> 'v cache \<Rightarrow> 'v cache" where
  "updateTags now key tgs st = fold (add_tag now key) tgs st"

definition remove_tag :: "string \<Rightarrow> string \<Rightarrow> 'v cache \<Rightarrow> 'v cache" where
  "remove_tag key tag st =
     (case map_of (cache_tags st) tag of
        None \<Rightarrow> st
      | Some tagData \<Rightarrow>
          (let ks = set_delete key (tag_keys tagData)
           in if length ks = 0
              then st\<lparr>cache_tags := AList.delete tag (cache_tags st)\<rparr>
              else st\<lparr>cache_tags := AList.update tag (tagData\<lparr>tag_keys := ks\<rparr>) (cache_tags st)\<rparr>))"

definition removeTags :: "string \<Rightarrow> string list \<Rightarrow> 'v cache \<Rightarrow> 'v cache" where
  "removeTags key tgs st = fold (remove_tag key) tgs st"

text \<open>
  \<open>delete\<close> and \<open>invalidateDependents\<close> call each other. The recursion of the source has
  no bound, so the model counts the depth of the calls: \<open>Cachly_delete n\<close> is \<open>None\<close>
  when the calls nest deeper than \<open>n\<close>. \<open>invalidateDependents\<close> takes the \<open>delete\<close> it
  calls as its first argument.
\<close>

definition invalidateDependents ::
  "(string \<Rightarrow> 'v cache \<Rightarrow> 'v cache option) \<Rightarrow> string \<Rightarrow> 'v cache \<Rightarrow> 'v cache option" where
  "invalidateDependents del key st =
     (case map_of (items st) key of
        None \<Rightarrow> Some st
      | Some item \<Rightarrow> forEachM del (dependents item) st)"

primrec Cachly_delete :: "nat \<Rightarrow> string \<Rightarrow> 'v cache \<Rightarrow> 'v cache option" where
  "Cachly_delete 0 = (\<lambda>key st. None)"
| "Cachly_delete (Suc n) = (\<lambda>key st.
     (case map_of (items st) key of
        None \<Rightarrow> Some st
      | Some item \<Rightarrow>
          (case invalidateDependents (Cachly_delete n) key
                  (removeTags key (tags item) (removeDependencies key (dependsOn item) st)) of
             None \<Rightarrow> None
           | Some st' \<Rightarrow> Some (updateStats (st'\<lparr>items := AList.delete key (items st')\<rparr>)))))"

definition Cachly_clear :: "'v cache \<Rightarrow> 'v cache" where
  "Cachly_clear st = updateStats (st\<lparr>items := []\<rparr>)"

subsection \<open>Eviction\<close>

text \<open>
  The scan of \<open>evictLRU\<close>: the pair is \<open>(oldestKey, oldestTime)\<close>. The scan of
  \<open>evictLFU\<close> starts from \<open>Infinity\<close>, which every count is below: \<open>None\<close> stands for it.
  \<open>if (oldestKey)\<close> is false for \<open>null\<close> and for the empty string.
\<close>

definition lru_step :: "string option \<times> int \<Rightarrow> string \<times> 'v CacheItem \<Rightarrow> string option \<times> int" where
  "lru_step acc kv = (if lastAccessed (snd kv) < snd acc then (Some (fst kv), lastAccessed (snd kv)) else acc)"

definition lru_scan :: "int \<Rightarrow> (string \<times> 'v CacheItem) list \<Rightarrow> string option \<times> int" where
  "lru_scan now its = foldl lru_step (None, now) its"

definition evict_key :: "string \<Rightarrow> 'v cache \<Rightarrow> 'v cache" where
  "evict_key k st =
     updateStats (st\<lparr>items := AList.delete k (items st),
                     cacheStats := (cacheStats st)\<lparr>evictions := evictions (cacheStats st) + 1\<rparr>\<rparr>)"

definition evictLRU :: "int \<Rightarrow> 'v cache \<Rightarrow> 'v cache" where
  "evictLRU now st =
     (case fst (lru_scan now (items st)) of
        None \<Rightarrow> st
      | Some oldestKey \<Rightarrow> if oldestKey = [] then st else evict_key oldestKey st)"

definition evictTTL :: "int \<Rightarrow> 'v cache \<Rightarrow> 'v cache" where
  "evictTTL now st =
     (let expired = (\<lambda>item. case expiresAt item of None \<Rightarrow> False | Some e \<Rightarrow> e \<noteq> 0 \<and> now > e);
          gone = filter (\<lambda>kv. expired (snd kv)) (items st)
      in updateStats (st\<lparr>items := filter (\<lambda>kv. \<not> expired (snd kv)) (items st),
                         cacheStats := (cacheStats st)\<lparr>evictions := evictions (cacheStats st) + length gone\<rparr>\<rparr>))"

definition lfu_step :: "string option \<times> nat option \<Rightarrow> string \<times> 'v CacheItem \<Rightarrow> string option \<times> nat option" where
  "lfu_step acc kv =
     (if (case snd acc of None \<Rightarrow> True | Some c \<Rightarrow> accessCount (snd kv) < c)
      then (Some (fst kv), Some (accessCount (snd kv))) else acc)"

definition lfu_scan :: "(string \<times> 'v CacheItem) list \<Rightarrow> string option \<times> nat option" where
  "lfu_scan its = foldl lfu_step (None, None) its"

definition evictLFU :: "'v cache \<Rightarrow> 'v cache" where
  "evictLFU st =
     (case fst (lfu_scan (items st)) of
        None \<Rightarrow> st
      | Some leastFrequentKey \<Rightarrow> if leastFrequentKey = [] then st else evict_key leastFrequentKey st)"

definition evict :: "int \<Rightarrow> 'v cache \<Rightarrow> 'v cache" where
  "evict now st =
     (case evictionPolicy (config st) of
        LRU \<Rightarrow> evictLRU now st
      | TTL \<Rightarrow> evictTTL now st
      | LFU \<Rightarrow> evictLFU st
      | Manual \<Rightarrow> st)"

text \<open>
  \<open>while (this.config.maxItems && this.items.size > this.config.maxItems) this.evict()\<close>:
  the loop may run forever, and then the function has no value (\<open>None\<close>).
\<close>

partial_function (option) evictIfNeeded :: "(nat \<Rightarrow> int) \<Rightarrow> nat \<Rightarrow> 'v cache \<Rightarrow> 'v cache option" where
  "evictIfNeeded clk i st =
     (if maxItems (config st) \<noteq> 0 \<and> length (items st) > maxItems (config st)
      then evictIfNeeded clk (Suc i) (evict (clk i) st)
      else Some st)"

declare evictIfNeeded.simps [code]

subsection \<open>set, get, has\<close>

text \<open>
  \<open>ttl && ttl > 0\<close> and \<open>options.staleTtl ? ...\<close> are truth tests: 0 is false. The
  value is stored as the \<open>Buffer\<close> that \<open>compress\<close> returns whenever compression is
  enabled, and \<open>compressed\<close> records whether the two sizes differ.
\<close>

definition new_item :: "'v codec \<Rightarrow> 'v \<Rightarrow> CacheOptions \<Rightarrow> int \<Rightarrow> 'v CacheConfig \<Rightarrow> 'v CacheItem" where
  "new_item cdc v options now cfg =
     (let ttl' = (case ttl options of None \<Rightarrow> defaultTtl cfg | Some t \<Rightarrow> t);
          expiresAt' = (if ttl' \<noteq> 0 \<and> ttl' > 0 then Some (now + ttl') else None);
          staleAt' = (case staleTtl options of
                        None \<Rightarrow> None
                      | Some s \<Rightarrow> if s \<noteq> 0 then Some (now + s) else None);
          r = CompressionUtil_compress cdc v (compression cfg);
          on = c_enabled (compression cfg)
      in \<lparr>item_value = (if on then Buffer (cr_data r) else Plain v),
          createdAt = now,
          expiresAt = expiresAt',
          staleAt = staleAt',
          dependsOn = new_Set (case opt_dependsOn options of None \<Rightarrow> [] | Some ds \<Rightarrow> ds),
          dependents = [],
          tags = new_Set (case opt_tags options of None \<Rightarrow> [] | Some ts \<Rightarrow> ts),
          accessCount = 0,
          lastAccessed = now,
          compressed = (on \<and> cr_originalSize r \<noteq> cr_compressedSize r),
          originalSize = (if on then cr_originalSize r else 0),
          compressedSize = (if on then cr_compressedSize r else 0)\<rparr>)"

text \<open>The body of \<open>set\<close> up to the call of \<open>evictIfNeeded\<close>, then \<open>set\<close> itself.\<close>

definition store_entry :: "'v codec \<Rightarrow> string \<Rightarrow> 'v \<Rightarrow> CacheOptions \<Rightarrow> int \<Rightarrow> 'v cache \<Rightarrow> 'v cache" where
  "store_entry cdc key v options now st =
     (let item = new_item cdc v options now (config st);
          st1 = st\<lparr>items := AList.update key item (items st)\<rparr>;
          st2 = updateDependencies key (dependsOn item) st1;
          st3 = updateTags now key (tags item) st2
      in updateStats st3)"

definition Cachly_set ::
  "'v codec \<Rightarrow> string \<Rightarrow> 'v \<Rightarrow> CacheOptions \<Rightarrow> int \<Rightarrow> (nat \<Rightarrow> int) \<Rightarrow> 'v cache \<Rightarrow> 'v cache option" where
  "Cachly_set cdc key v options now clk st = evictIfNeeded clk 0 (store_entry cdc key v options now st)"

definition count_miss :: "'v cache \<Rightarrow> 'v cache" where
  "count_miss st = st\<lparr>cacheStats := (cacheStats st)\<lparr>misses := misses (cacheStats st) + 1,
     totalAccesses := totalAccesses (cacheStats st) + 1\<rparr>\<rparr>"

definition count_hit :: "'v cache \<Rightarrow> 'v cache" where
  "count_hit st = st\<lparr>cacheStats := (cacheStats st)\<lparr>hits := hits (cacheStats st) + 1,
     totalAccesses := totalAccesses (cacheStats st) + 1\<rparr>\<rparr>"

definition touch :: "string \<Rightarrow> 'v CacheItem \<Rightarrow> int \<Rightarrow> 'v cache \<Rightarrow> 'v cache" where
  "touch key item now st =
     st\<lparr>items := AList.update key (item\<lparr>accessCount := accessCount item + 1, lastAccessed := now\<rparr>)
                    (items st)\<rparr>"

text \<open>
  \<open>get\<close> returns the stored value, the decompressed value, or \<open>undefined\<close> (\<open>None\<close>). A
  \<open>delete\<close> that does not return leaves \<open>get\<close> without a result (the outer \<open>None\<close>).
\<close>

definition Cachly_get ::
  "nat \<Rightarrow> 'v codec \<Rightarrow> string \<Rightarrow> int \<Rightarrow> 'v cache \<Rightarrow> ('v stored option \<times> 'v cache) option" where
  "Cachly_get fuel cdc key now st =
     (case map_of (items st) key of
        None \<Rightarrow> Some (None, count_miss st)
      | Some item \<Rightarrow>
          if isExpired now item
          then (case Cachly_delete fuel key st of
                  None \<Rightarrow> None
                | Some st' \<Rightarrow> Some (None, count_miss st'))
          else (let st' = count_hit (touch key item now st)
                in if compressed item \<and> c_enabled (compression (config st))
                   then (case item_value item of
                           Buffer b \<Rightarrow>
                             (case CompressionUtil_decompress cdc b (c_algorithm (compression (config st))) of
                                None \<Rightarrow> Some (None, st')
                              | Some v \<Rightarrow> Some (Some (Plain v), st'))
                         | Plain v \<Rightarrow> Some (None, st'))
                   else Some (Some (item_value item), st')))"

definition has :: "string \<Rightarrow> int \<Rightarrow> 'v cache \<Rightarrow> bool" where
  "has key now st = (case map_of (items st) key of None \<Rightarrow> False | Some item \<Rightarrow> \<not> isExpired now item)"

subsection \<open>getOrCompute, getOrComputeWithStale\<close>

text \<open>
  A loader is given by what its call does: it throws (\<open>Inl\<close>) or returns a value. The
  results carry the number of loader calls made before the operation returned. \<open>now\<close>
  is the clock on entry, \<open>now'\<close> the clock once the loader has settled.
\<close>

definition load_and_set ::
  "'v codec \<Rightarrow> string \<Rightarrow> error + 'v \<Rightarrow> CacheOptions \<Rightarrow> int \<Rightarrow> (nat \<Rightarrow> int) \<Rightarrow> 'v cache \<Rightarrow>
   ((error + 'v stored) \<times> 'v cache) option" where
  "load_and_set cdc key loader options now' clk st =
     (case loader of
        Inl e \<Rightarrow> Some (Inl e, st)
      | Inr v \<Rightarrow>
          (case Cachly_set cdc key v options now' clk st of
             None \<Rightarrow> None
           | Some st' \<Rightarrow> Some (Inr (Plain v), st')))"

definition getOrCompute ::
  "nat \<Rightarrow> 'v codec \<Rightarrow> string \<Rightarrow> error + 'v \<Rightarrow> CacheOptions \<Rightarrow> int \<Rightarrow> int \<Rightarrow> (nat \<Rightarrow> int) \<Rightarrow> 'v cache \<Rightarrow>
   ((error + 'v stored) \<times> nat \<times> 'v cache) option" where
  "getOrCompute fuel cdc key loader options now now' clk st =
     (case Cachly_get fuel cdc key now st of
        None \<Rightarrow> None
      | Some (Some cached, st1) \<Rightarrow> Some (Inr cached, 0, st1)
      | Some (None, st1) \<Rightarrow>
          (case circuitBreaker st1 of
             Some cb \<Rightarrow>
               (case CircuitBreaker_execute now now' key (load_and_set cdc key loader options now' clk)
                       (map_option (\<lambda>f k. Plain (f k)) (fallback (cfg_circuitBreaker (config st1)))) cb st1 of
                  None \<Rightarrow> None
                | Some (r, n, cb', st2) \<Rightarrow> Some (r, n, st2\<lparr>circuitBreaker := Some cb'\<rparr>))
           | None \<Rightarrow>
               (case load_and_set cdc key loader options now' clk st1 of
                  None \<Rightarrow> None
                | Some (r, st2) \<Rightarrow> Some (r, 1, st2))))"

text \<open>
  Consecutive calls of \<open>getOrCompute\<close> for one key with a loader that throws: each
  call is given by the error thrown and the two clock readings. The result carries the
  number of loader calls made.
\<close>

fun failing_calls ::
  "nat \<Rightarrow> 'v codec \<Rightarrow> string \<Rightarrow> CacheOptions \<Rightarrow> (nat \<Rightarrow> int) \<Rightarrow> (error \<times> int \<times> int) list \<Rightarrow> 'v cache \<Rightarrow>
   ('v cache \<times> nat) option" where
  "failing_calls fuel cdc key options clk [] st = Some (st, 0)"
| "failing_calls fuel cdc key options clk ((e, now, now') # calls) st =
     (case getOrCompute fuel cdc key (Inl e) options now now' clk st of
        None \<Rightarrow> None
      | Some (r, n, st') \<Rightarrow>
          (case failing_calls fuel cdc key options clk calls st' of
             None \<Rightarrow> None
           | Some (st'', m) \<Rightarrow> Some (st'', n + m)))"

text \<open>
  The value read back from an item by \<open>getOrComputeWithStale\<close>: decompression is not
  guarded there, so its failure is thrown.
\<close>

definition read_item :: "'v codec \<Rightarrow> 'v cache \<Rightarrow> 'v CacheItem \<Rightarrow> error + 'v stored option" where
  "read_item cdc st item =
     (if compressed item \<and> c_enabled (compression (config st))
      then (case item_value item of
              Buffer b \<Rightarrow>
                (case CompressionUtil_decompress cdc b (c_algorithm (compression (config st))) of
                   None \<Rightarrow> Inl (Error ''Failed to decompress data'')
                 | Some v \<Rightarrow> Inr (Some (Plain v)))
            | Plain v \<Rightarrow> Inl (Error ''Failed to decompress data''))
      else Inr (Some (item_value item)))"

text \<open>The options of a refresh: \<open>{ ...options, staleTtl, ttl }\<close>.\<close>

definition refresh_options :: "'v cache \<Rightarrow> CacheOptions \<Rightarrow> CacheOptions" where
  "refresh_options st options =
     options\<lparr>staleTtl := Some (case staleTtl options of None \<Rightarrow> 0 | Some s \<Rightarrow> s),
             ttl := Some (case ttl options of None \<Rightarrow> defaultTtl (config st) | Some t \<Rightarrow> t)\<rparr>"

text \<open>
  The callback given to \<open>setTimeout\<close> in the stale branch, run at clock \<open>now'\<close>: a
  loader that throws leaves the cache as it is.
\<close>

definition background_refresh ::
  "'v codec \<Rightarrow> string \<Rightarrow> error + 'v \<Rightarrow> CacheOptions \<Rightarrow> int \<Rightarrow> (nat \<Rightarrow> int) \<Rightarrow> 'v cache \<Rightarrow> 'v cache option" where
  "background_refresh cdc key loader options now' clk st =
     (case loader of
        Inl e \<Rightarrow> Some st
      | Inr v \<Rightarrow>
          (let ro = refresh_options st options
           in case Cachly_set cdc key v ro now' clk st of
                None \<Rightarrow> None
              | Some st' \<Rightarrow>
                  (case map_of (items st') key of
                     None \<Rightarrow> Some st'
                   | Some updated \<Rightarrow>
                       Some (st'\<lparr>items := AList.update key
                         (updated\<lparr>staleAt := (if the (staleTtl ro) \<noteq> 0 then Some (now' + the (staleTtl ro)) else None),
                                  expiresAt := (if the (ttl ro) \<noteq> 0 \<and> the (ttl ro) > 0
                                                then Some (now' + the (ttl ro)) else None)\<rparr>)
                         (items st')\<rparr>))))"

record 'v swr =
  swr_result :: "error + 'v stored option"
  swr_loads :: nat
  swr_scheduled :: nat
  swr_cache :: "'v cache"

definition getOrComputeWithStale ::
  "'v codec \<Rightarrow> string \<Rightarrow> error + 'v \<Rightarrow> CacheOptions \<Rightarrow> int \<Rightarrow> int \<Rightarrow> (nat \<Rightarrow> int) \<Rightarrow> 'v cache \<Rightarrow>
   'v swr option" where
  "getOrComputeWithStale cdc key loader options now now' clk st =
     (case map_of (items st) key of
        Some item \<Rightarrow>
          if \<not> isExpired now item
          then Some \<lparr>swr_result = read_item cdc st item, swr_loads = 0, swr_scheduled = 0,
                     swr_cache = count_hit (touch key item now st)\<rparr>
          else if isStale now item \<and> staleWhileRevalidate (config st)
          then (let st1 = count_hit st
                in if testAwaitBackground options
                   then (case loader of
                           Inl e \<Rightarrow>
                             Some \<lparr>swr_result = read_item cdc st1 item, swr_loads = 1,
                                   swr_scheduled = 0, swr_cache = st1\<rparr>
                         | Inr v \<Rightarrow>
                             (case Cachly_set cdc key v (refresh_options st1 options) now' clk st1 of
                                None \<Rightarrow> None
                              | Some st2 \<Rightarrow>
                                  Some \<lparr>swr_result = (case map_of (items st2) key of
                                                        None \<Rightarrow> Inr None
                                                      | Some item' \<Rightarrow> read_item cdc st2 item'),
                                        swr_loads = 1, swr_scheduled = 0, swr_cache = st2\<rparr>))
                   else Some \<lparr>swr_result = read_item cdc st1 item, swr_loads = 0,
                              swr_scheduled = 1, swr_cache = st1\<rparr>)
          else (case load_and_set cdc key loader options now' clk st of
                  None \<Rightarrow> None
                | Some (r, st') \<Rightarrow>
                    Some \<lparr>swr_result = map_sum id Some r, swr_loads = 1, swr_scheduled = 0,
                          swr_cache = st'\<rparr>)
      | None \<Rightarrow>
          (case load_and_set cdc key loader options now' clk st of
             None \<Rightarrow> None
           | Some (r, st') \<Rightarrow>
               Some \<lparr>swr_result = map_sum id Some r, swr_loads = 1, swr_scheduled = 0,
                     swr_cache = st'\<rparr>))"

subsection \<open>Tags and groups\<close>

definition invalidateByTag :: "nat \<Rightarrow> string \<Rightarrow> 'v cache \<Rightarrow> (string list \<times> 'v cache) option" where
  "invalidateByTag fuel tag st =
     (case map_of (cache_tags st) tag of
        None \<Rightarrow> Some ([], st)
      | Some tagData \<Rightarrow>
          (let affectedKeys = tag_keys tagData
           in case forEachM (Cachly_delete fuel) affectedKeys st of
                None \<Rightarrow> None
              | Some st' \<Rightarrow> Some (affectedKeys, st'\<lparr>cache_tags := AList.delete tag (cache_tags st')\<rparr>)))"

definition getKeysByTag :: "string \<Rightarrow> 'v cache \<Rightarrow> string list" where
  "getKeysByTag tag st = (case map_of (cache_tags st) tag of None \<Rightarrow> [] | Some tagData \<Rightarrow> tag_keys tagData)"

definition createGroup :: "string \<Rightarrow> 'v cache \<Rightarrow> 'v cache" where
  "createGroup name st =
     st\<lparr>groups := AList.update name \<lparr>group_name = name, group_keys = []\<rparr> (groups st)\<rparr>"

definition addToGroup :: "string \<Rightarrow> string \<Rightarrow> 'v cache \<Rightarrow> bool \<times> 'v cache" where
  "addToGroup groupName key st =
     (case map_of (groups st) groupName of
        None \<Rightarrow> (False, st)
      | Some g \<Rightarrow>
          (True, st\<lparr>groups := AList.update groupName (g\<lparr>group_keys := set_add key (group_keys g)\<rparr>)
                                (groups st)\<rparr>))"

definition removeFromGroup :: "string \<Rightarrow> string \<Rightarrow> 'v cache \<Rightarrow> bool \<times> 'v cache" where
  "removeFromGroup groupName key st =
     (case map_of (groups st) groupName of
        None \<Rightarrow> (False, st)
      | Some g \<Rightarrow>
          (key \<in> set (group_keys g),
           st\<lparr>groups := AList.update groupName (g\<lparr>group_keys := set_delete key (group_keys g)\<rparr>)
                          (groups st)\<rparr>))"

definition deleteGroup :: "nat \<Rightarrow> string \<Rightarrow> 'v cache \<Rightarrow> (bool \<times> 'v cache) option" where
  "deleteGroup fuel groupName st =
     (case map_of (groups st) groupName of
        None \<Rightarrow> Some (False, st)
      | Some g \<Rightarrow>
          (case forEachM (Cachly_delete fuel) (group_keys g) st of
             None \<Rightarrow> None
           | Some st' \<Rightarrow> Some (True, st'\<lparr>groups := AList.delete groupName (groups st')\<rparr>)))"

subsection \<open>Sequences of public operations\<close>

text \<open>
  A call of a public operation with its arguments and clock readings; \<open>run\<close> makes the
  calls of a list one after the other and has no value when one of them does not
  return (the depth bound \<open>fuel\<close> of \<open>delete\<close> is the same for every call).
\<close>

datatype 'v op =
    Op_set string 'v CacheOptions int "nat \<Rightarrow> int"
  | Op_get string int
  | Op_delete string
  | Op_clear
  | Op_invalidateByTag string
  | Op_createGroup string
  | Op_addToGroup string string
  | Op_removeFromGroup string string
  | Op_deleteGroup string

fun apply_op :: "nat \<Rightarrow> 'v codec \<Rightarrow> 'v op \<Rightarrow> 'v cache \<Rightarrow> 'v cache option" where
  "apply_op fuel cdc (Op_set key v options now clk) st = Cachly_set cdc key v options now clk st"
| "apply_op fuel cdc (Op_get key now) st = map_option snd (Cachly_get fuel cdc key now st)"
| "apply_op fuel cdc (Op_delete key) st = Cachly_delete fuel key st"
| "apply_op fuel cdc Op_clear st = Some (Cachly_clear st)"
| "apply_op fuel cdc (Op_invalidateByTag tag) st = map_option snd (invalidateByTag fuel tag st)"
| "apply_op fuel cdc (Op_createGroup name) st = Some (createGroup name st)"
| "apply_op fuel cdc (Op_addToGroup name key) st = Some (snd (addToGroup name key st))"
| "apply_op fuel cdc (Op_removeFromGroup name key) st = Some (snd (removeFromGroup name key st))"
| "apply_op fuel cdc (Op_deleteGroup name) st = map_option snd (deleteGroup fuel name st)"

definition run :: "nat \<Rightarrow> 'v codec \<Rightarrow> 'v op list \<Rightarrow> 'v cache \<Rightarrow> 'v cache option" where
  "run fuel cdc ops st = forEachM (apply_op fuel cdc) ops st"

text \<open>
  The first entry, in iteration order, whose value is minimal among all entries: the
  victim the specification names for the scanning eviction policies.
\<close>

definition first_minimal :: "('b \<Rightarrow> 'c::linorder) \<Rightarrow> ('a \<times> 'b) list \<Rightarrow> ('a \<times> 'b) option" where
  "first_minimal f its = find (\<lambda>kv. \<forall>kv' \<in> set its. f (snd kv) \<le> f (snd kv')) its"

subsection \<open>isBalanced\<close>

text \<open>
  \<open>this.partitioningUtil?.isBalanced() || true\<close>: the left operand is \<open>undefined\<close>
  (\<open>None\<close>) without a utility; \<open>||\<close> yields its right operand unless the left one is true.
\<close>

definition js_or :: "bool option \<Rightarrow> bool \<Rightarrow> bool" where
  "js_or a b = (case a of Some True \<Rightarrow> True | _ \<Rightarrow> b)"

definition Cachly_isBalanced :: "'v cache \<Rightarrow> bool" where
  "Cachly_isBalanced st = js_or (map_option PartitioningUtil_isBalanced (partitioningUtil st)) True"

text \<open>
  The condition under which every pass of the eviction loop from pass \<open>i\<close> on removes
  an entry: the lfu policy, or the lru policy with every clock reading from pass \<open>i\<close>
  on later than every \<open>lastAccessed\<close>.
\<close>

definition evicts_from :: "(nat \<Rightarrow> int) \<Rightarrow> nat \<Rightarrow> 'v cache \<Rightarrow> bool" where
  "evicts_from clk i st \<longleftrightarrow>
     evictionPolicy (config st) = LFU
     \<or> (evictionPolicy (config st) = LRU
         \<and> (\<forall>j\<ge>i. \<forall>kv \<in> set (items st). lastAccessed (snd kv) < clk j))"

subsection \<open>The dependency graph and the tag index of a state\<close>

text \<open>
  What a state holds, read off the \<open>items\<close> map and the \<open>tags\<close> map: the resident keys,
  the \<open>dependsOn\<close>, \<open>dependents\<close> and \<open>tags\<close> sets of the entry of a key (empty when
  the key has no entry), the \<open>keys\<close> set of a tag (empty when the tag is not in the
  index), and the edges \<open>(b, a)\<close> that \<open>invalidateDependents\<close> follows: \<open>a\<close> is listed in
  the \<open>dependents\<close> set of the resident entry \<open>b\<close>.
\<close>

definition resident :: "'v cache \<Rightarrow> string set" where
  "resident st = fst ` set (items st)"

definition dependsOn_of :: "'v cache \<Rightarrow> string \<Rightarrow> string set" where
  "dependsOn_of st k = (case map_of (items st) k of None \<Rightarrow> {} | Some item \<Rightarrow> set (dependsOn item))"

definition dependents_of :: "'v cache \<Rightarrow> string \<Rightarrow> string set" where
  "dependents_of st k = (case map_of (items st) k of None \<Rightarrow> {} | Some item \<Rightarrow> set (dependents item))"

definition tags_of :: "'v cache \<Rightarrow> string \<Rightarrow> string set" where
  "tags_of st k = (case map_of (items st) k of None \<Rightarrow> {} | Some item \<Rightarrow> set (tags item))"

definition tag_members :: "'v cache \<Rightarrow> string \<Rightarrow> string set" where
  "tag_members st t = (case map_of (cache_tags st) t of None \<Rightarrow> {} | Some td \<Rightarrow> set (tag_keys td))"

definition dependency_edges :: "'v cache \<Rightarrow> (string \<times> string) set" where
  "dependency_edges st = {(b, a). b \<in> resident st \<and> a \<in> dependents_of st b}"

text \<open>The keys named by an option that holds a list (\<open>options.dependsOn || []\<close>).\<close>

definition option_list :: "'a list option \<Rightarrow> 'a set" where
  "option_list xs = (case xs of None \<Rightarrow> {} | Some ys \<Rightarrow> set ys)"

text \<open>
  \<open>shrinks s s'\<close> relates a state to a later one in which entries have been removed by
  \<open>delete\<close>: no entry is new, a remaining entry keeps its \<open>dependsOn\<close> and \<open>tags\<close> and
  loses from its \<open>dependents\<close> only keys that are gone; a removed entry is gone from the
  \<open>dependents\<close> of the entries it depended on and from the tags it carried, and its own
  dependents are gone with it; no tag gains a key.
\<close>

definition shrinks :: "'v cache \<Rightarrow> 'v cache \<Rightarrow> bool" where
  "shrinks s s' \<longleftrightarrow>
     resident s' \<subseteq> resident s
   \<and> (\<forall>k \<in> resident s'. dependsOn_of s' k = dependsOn_of s k \<and> tags_of s' k = tags_of s k
         \<and> dependents_of s' k \<subseteq> dependents_of s k
         \<and> (\<forall>a \<in> dependents_of s k - dependents_of s' k. a \<notin> resident s'))
   \<and> (\<forall>x \<in> resident s - resident s'.
         (\<forall>b \<in> resident s'. b \<in> dependsOn_of s x \<longrightarrow> x \<notin> dependents_of s' b)
       \<and> (\<forall>a \<in> dependents_of s x. a \<notin> resident s')
       \<and> (\<forall>t \<in> tags_of s x. x \<notin> tag_members s' t))
   \<and> (\<forall>t. tag_members s' t \<subseteq> tag_members s t)
   \<and> config s' = config s \<and> groups s' = groups s
   \<and> (distinct (map fst (items s)) \<longrightarrow> distinct (map fst (items s')))"

text \<open>
  \<open>ranked r s\<close>: along every edge between two resident entries the rank \<open>r\<close> grows, but
  for a loop at an entry that names itself in its own \<open>dependsOn\<close> (\<open>delete\<close> removes
  that loop before it takes the snapshot of the dependents). \<open>graded s\<close>: the keys of the map are
  distinct and some ranking exists.
\<close>

definition ranked :: "(string \<Rightarrow> nat) \<Rightarrow> 'v cache \<Rightarrow> bool" where
  "ranked r s \<longleftrightarrow>
     (\<forall>b \<in> resident s. \<forall>a \<in> dependents_of s b.
        a \<in> resident s \<longrightarrow> (a = b \<and> b \<in> dependsOn_of s b) \<or> r b < r a)"

definition graded :: "'v cache \<Rightarrow> bool" where
  "graded s \<longleftrightarrow> distinct (map fst (items s)) \<and> (\<exists>r. ranked r s)"

text \<open>
  The symmetry of the dependency edges: for any two resident keys \<open>a\<close> and \<open>b\<close>, \<open>a\<close>
  is in the \<open>dependents\<close> of \<open>b\<close> if and only if \<open>b\<close> is in the \<open>dependsOn\<close> of \<open>a\<close>.
\<close>

definition symmetric :: "'v cache \<Rightarrow> bool" where
  "symmetric s \<longleftrightarrow>
     (\<forall>a \<in> resident s. \<forall>b \<in> resident s. a \<in> dependents_of s b \<longleftrightarrow> b \<in> dependsOn_of s a)"

text \<open>
  A \<open>set\<close> whose edges are all registered: the key has no entry, every key it names in
  \<open>dependsOn\<close> has one (\<open>updateDependencies\<close> registers a back-edge only \<open>if (depItem)\<close>),
  and no resident entry names the key in its \<open>dependsOn\<close> or \<open>dependents\<close>. \<open>sets_link\<close>
  says that every \<open>set\<close> of a sequence of operations is such a \<open>set\<close> in the state in
  which it is made.
\<close>

definition links_all :: "'v cache \<Rightarrow> string \<Rightarrow> CacheOptions \<Rightarrow> bool" where
  "links_all s key options \<longleftrightarrow>
     key \<notin> resident s
   \<and> option_list (opt_dependsOn options) \<subseteq> resident s
   \<and> (\<forall>b \<in> resident s. key \<notin> dependsOn_of s b \<and> key \<notin> dependents_of s b)"

fun op_links :: "'v op \<Rightarrow> 'v cache \<Rightarrow> bool" where
  "op_links (Op_set key v options now clk) s = links_all s key options"
| "op_links _ s = True"

fun sets_link :: "nat \<Rightarrow> 'v codec \<Rightarrow> 'v op list \<Rightarrow> 'v cache \<Rightarrow> bool" where
  "sets_link fuel cdc [] s = True"
| "sets_link fuel cdc (op # ops) s =
     (op_links op s \<and> (case apply_op fuel cdc op s of None \<Rightarrow> True | Some s' \<Rightarrow> sets_link fuel cdc ops s'))"

section \<open>Example instances\<close>

text \<open>
  A codec for string values, used where a property is run on concrete input: the value
  is serialised between double quotes, gzip puts its two magic bytes in front, and the
  brotli and lz4 libraries are not installed. \<open>tick\<close> is a clock that advances by one
  with every reading of the eviction loop.
\<close>

definition example_codec :: "string codec" where
  "example_codec = \<lparr>stringify = (\<lambda>s. 34 # map (\<lambda>c. of_nat (of_char c)) s @ [34]),
     parse = (\<lambda>b. if length b \<ge> 2 \<and> hd b = 34 \<and> last b = 34
                    then Some (map (\<lambda>w. char_of (unat w)) (butlast (tl b))) else None),
     gzip = (\<lambda>b. Some (31 # 139 # b)),
     gunzip = (\<lambda>b. case b of x # y # r \<Rightarrow> if x = 31 \<and> y = 139 then Some r else None | _ \<Rightarrow> None),
     brotli_compress = (\<lambda>b. None), brotli_decompress = (\<lambda>b. None),
     lz4_encode = (\<lambda>b. None), lz4_decode = (\<lambda>b. None)\<rparr>"

definition tick :: "nat \<Rightarrow> int" where
  "tick i = int i"

text \<open>The configurations of the repository's tests of stale-while-revalidate and of compression.\<close>

definition swr_config :: "string CacheConfig" where
  "swr_config = default_config\<lparr>staleWhileRevalidate := True, defaultTtl := 100\<rparr>"

definition compression_config :: "string CacheConfig" where
  "compression_config = default_config\<lparr>compression :=
     \<lparr>c_enabled = True, c_algorithm = Gzip, c_threshold = 1000\<rparr>\<rparr>"

definition range_partitioning :: PartitioningConfig where
  "range_partitioning = \<lparr>p_enabled = True, strategy = Range, partitions = 4, partitionKey = None\<rparr>"

definition hash_partitioning :: PartitioningConfig where
  "hash_partitioning = \<lparr>p_enabled = True, strategy = Hash, partitions = 4, partitionKey = None\<rparr>"

definition breaker_config :: "string CacheConfig" where
  "breaker_config = default_config\<lparr>cfg_circuitBreaker :=
     \<lparr>cb_enabled = True, failureThreshold = 2, recoveryTimeout = 100, fallback = None,
      cfg_monitorWindow = None\<rparr>\<rparr>"

text \<open>The chain of the dependency example: child depends on parent, grandchild on child.\<close>

definition depends_on :: "string list \<Rightarrow> CacheOptions" where
  "depends_on ds = no_options\<lparr>opt_dependsOn := Some ds\<rparr>"

definition chain_ops :: "string op list" where
  "chain_ops = [Op_set ''parent'' ''parent-value'' no_options 0 tick,
                Op_set ''child'' ''child-value'' (depends_on [''parent'']) 0 tick,
                Op_set ''grandchild'' ''grandchild-value'' (depends_on [''child'']) 0 tick]"

text \<open>
  The tag example: \<open>user:1\<close> and \<open>user:2\<close> tagged \<open>users\<close>, \<open>post:1\<close> with no tag.
\<close>

definition tagged :: "string list \<Rightarrow> CacheOptions" where
  "tagged ts = no_options\<lparr>opt_tags := Some ts\<rparr>"

definition users_ops :: "string op list" where
  "users_ops = [Op_set ''user:1'' ''alice'' (tagged [''users'']) 0 tick,
                Op_set ''user:2'' ''bob'' (tagged [''users'']) 0 tick,
                Op_set ''post:1'' ''hello'' no_options 0 tick]"

text \<open>The chain, then a read of \<open>child\<close> and the deletion of \<open>grandchild\<close>.\<close>

definition linked_ops :: "string op list" where
  "linked_ops = chain_ops @ [Op_get ''child'' 1, Op_delete ''grandchild'']"

section \<open>Properties\<close>

lemma set_new_Set_aux: "set (fold set_add xs acc) = set xs \<union> set acc"
  by (induction xs arbitrary: acc) (auto simp: set_add_def)

lemma set_new_Set: "set (new_Set xs) = set xs"
  by (simp add: new_Set_def set_new_Set_aux)

lemmas eval_defs = Cachly_set_def store_entry_def new_item_def new_Cachly_def default_config_def no_options_def
  updateDependencies_def updateTags_def add_tag_def add_dependent_def updateStats_def
  new_Set_def set_add_def evictIfNeeded.simps Let_def

subsection \<open>isBalanced\<close>

text \<open>
  C10. The public \<open>isBalanced()\<close> of the cache returns true in every state: without a
  partitioning utility, and with one whatever its per-bucket key counts are, also when
  the utility's own predicate (standard deviation below 20% of the mean) is false.
\<close>

theorem Cachly_isBalanced_always: "Cachly_isBalanced st = True"
  by (simp add: Cachly_isBalanced_def js_or_def split: option.splits bool.splits)

text \<open>
  The two answers differ already on a cache just built with partitioning enabled: all
  counts are 0, the utility's predicate \<open>0 < 0\<close> is false, the cache answers true.
\<close>

lemma fresh_utility_not_balanced:
  "\<not> PartitioningUtil_isBalanced (new_PartitioningUtil hash_partitioning)"
  by (simp add: PartitioningUtil_isBalanced_def new_PartitioningUtil_def hash_partitioning_def
      Let_def upt_rec)

lemma fresh_cache_isBalanced_disagrees:
  "map_option PartitioningUtil_isBalanced
     (partitioningUtil (new_Cachly (default_config\<lparr>partitioning := hash_partitioning\<rparr>) :: string cache))
     = Some False
   \<and> Cachly_isBalanced (new_Cachly (default_config\<lparr>partitioning := hash_partitioning\<rparr>) :: string cache)"
  using fresh_utility_not_balanced
  by (simp add: new_Cachly_def default_config_def hash_partitioning_def Cachly_isBalanced_def js_or_def)

subsection \<open>Partition assignment\<close>

lemma js_rem_range: "0 \<le> a \<Longrightarrow> 0 < n \<Longrightarrow> \<exists>b. js_rem a n = Num b \<and> 0 \<le> b \<and> b < int n"
  by (auto simp: js_rem_def sgn_if)

text \<open>The hash strategy (and the custom one, which falls back to it) stays in range for every key.\<close>

lemma hashPartition_range:
  "0 < partitions cfg \<Longrightarrow> \<exists>b. hashPartition cfg key = Num b \<and> 0 \<le> b \<and> b < int (partitions cfg)"
  unfolding hashPartition_def by (rule js_rem_range) auto

text \<open>The range strategy stays in range for a key with a first character.\<close>

lemma rangePartition_range:
  assumes "0 < partitions cfg" and "key = c # cs" and "lowerCase c \<noteq> []"
  shows "\<exists>b. rangePartition lowerCase cfg key = Num b \<and> 0 \<le> b \<and> b < int (partitions cfg)"
proof -
  obtain d ds where d: "lowerCase c = d # ds"
    using assms(3) by (cases "lowerCase c") auto
  have "rangePartition lowerCase cfg key = js_rem (uint d) (partitions cfg)"
    by (simp add: rangePartition_def charAt0_def toLowerCase_def assms(2) d)
  then show ?thesis
    using js_rem_range [of "uint d" "partitions cfg"] assms(1) by simp
qed

text \<open>
  C9. \<open>getPartition\<close> is a function of the configuration and the key, so it is
  deterministic; but under the range strategy the empty key has no first character,
  \<open>charCodeAt(0)\<close> is \<open>NaN\<close>, and the bucket returned is \<open>NaN\<close>, not an integer of
  \<open>[0, N)\<close>.
\<close>

theorem getPartition_range_empty_key:
  "getPartition lowerCase (new_PartitioningUtil range_partitioning) [] = NaN"
  by (simp add: getPartition_def new_PartitioningUtil_def range_partitioning_def
      rangePartition_def charAt0_def toLowerCase_def)

subsection \<open>Round trip through compression\<close>

text \<open>
  C7. With compression enabled and a value below the threshold (the repository's test
  "should not compress small values": threshold 1000, value \<open>small\<close>), \<open>set\<close> stores the
  \<open>Buffer\<close> of the serialised value with \<open>compressed = false\<close>, and \<open>get\<close> hands that
  \<open>Buffer\<close> back instead of the value.
\<close>

theorem small_value_comes_back_as_Buffer:
  "Option.bind (Cachly_set example_codec ''small-key'' ''small'' no_options 0 tick
       (new_Cachly compression_config))
     (\<lambda>st. map_option fst (Cachly_get 1 example_codec ''small-key'' 1 st))
   = Some (Some (Buffer (stringify example_codec ''small'')))"
  by (simp add: eval_defs compression_config_def Cachly_get_def isExpired_def
      CompressionUtil_compress_def example_codec_def)

subsection \<open>Stale-while-revalidate\<close>

text \<open>
  C2. The repository's test "should serve stale content while revalidating": default
  TTL 100, \<open>set\<close> at time 0 with \<open>staleTtl\<close> 200, read at time 150. \<open>isStale\<close> holds only
  after \<open>staleAt\<close>, so inside the window the stale branch is not taken: the call waits
  for the loader (one load before it returns, no refresh scheduled) and returns the
  loader's value, not the cached one.
\<close>

theorem stale_window_read_blocks_on_loader:
  "Option.bind (Cachly_set example_codec ''key'' ''initial-value'' (no_options\<lparr>staleTtl := Some 200\<rparr>)
       0 tick (new_Cachly swr_config))
     (\<lambda>st. map_option (\<lambda>r. (swr_result r, swr_loads r, swr_scheduled r))
        (getOrComputeWithStale example_codec ''key'' (Inr ''new-value'') no_options 150 151 tick st))
   = Some (Inr (Some (Plain ''new-value'')), 1, 0)"
  by (simp add: eval_defs swr_config_def getOrComputeWithStale_def isExpired_def isStale_def
      load_and_set_def)

text \<open>Past \<open>staleAt\<close> (time 250) the same read serves the cached value and schedules one refresh.\<close>

lemma read_after_staleAt_serves_cached:
  "Option.bind (Cachly_set example_codec ''key'' ''initial-value'' (no_options\<lparr>staleTtl := Some 200\<rparr>)
       0 tick (new_Cachly swr_config))
     (\<lambda>st. map_option (\<lambda>r. (swr_result r, swr_loads r, swr_scheduled r))
        (getOrComputeWithStale example_codec ''key'' (Inr ''new-value'') no_options 250 251 tick st))
   = Some (Inr (Some (Plain ''initial-value'')), 0, 1)"
  by (simp add: eval_defs swr_config_def getOrComputeWithStale_def isExpired_def isStale_def
      read_item_def count_hit_def)

text \<open>In general: a read inside the window of an expired entry makes one blocking load.\<close>

lemma stale_window_blocks:
  assumes "map_of (items st) key = Some item"
    and "expiresAt item = Some e" and "staleAt item = Some s" and "e < now" and "now \<le> s"
    and "getOrComputeWithStale cdc key loader options now now' clk st = Some r"
  shows "swr_loads r = 1 \<and> swr_scheduled r = 0"
  using assms
  by (auto simp: getOrComputeWithStale_def isExpired_def isStale_def split: option.splits)

subsection \<open>clear\<close>

text \<open>
  \<open>clear\<close> empties the entry store only. After \<open>set\<close> of \<open>a\<close> with tag \<open>t\<close> and
  \<open>createGroup\<close> of \<open>g\<close>, a \<open>clear\<close> leaves no entry, but tag \<open>t\<close> and group \<open>g\<close>
  are still there.
\<close>

theorem clear_leaves_tags_and_groups:
  "map_option (\<lambda>st. (map fst (items (Cachly_clear (createGroup ''g'' st))),
                     map fst (cache_tags (Cachly_clear (createGroup ''g'' st))),
                     map fst (groups (Cachly_clear (createGroup ''g'' st)))))
     (Cachly_set example_codec ''a'' ''v'' (no_options\<lparr>opt_tags := Some [''t'']\<rparr>) 0 tick
        (new_Cachly default_config))
   = Some ([], [''t''], [''g''])"
  by (simp add: eval_defs Cachly_clear_def createGroup_def)

text \<open>
  C8 (amended). After \<open>clear()\<close> the entry store is empty, the key count is 0 and no
  key is reported present; the group registry is as it was before.
\<close>

theorem clear_empties_entry_store:
  "items (Cachly_clear st) = [] \<and> keyCount (cacheStats (Cachly_clear st)) = 0
   \<and> (\<forall>key now. \<not> has key now (Cachly_clear st))
   \<and> groups (Cachly_clear st) = groups st"
  by (simp add: Cachly_clear_def updateStats_def has_def)


subsection \<open>Circuit breaker\<close>

lemma getOrCompute_admitted_failure:
  assumes "circuitBreaker st = Some cb" and "cb_enabled (cb_config cb)"
    and "map_of (items st) key = None"
    and "execute_enter now key (map_option (\<lambda>f k. Plain (f k)) (fallback (cfg_circuitBreaker (config st)))) cb = (Admit, cb1)"
  shows "getOrCompute fuel cdc key (Inl e) options now now' clk st =
           Some ((case fallback (cfg_circuitBreaker (config st)) of
                    Some f \<Rightarrow> Inr (Plain (f key)) | None \<Rightarrow> Inl e),
                 1, (count_miss st)\<lparr>circuitBreaker := Some (onFailure now' cb1)\<rparr>)"
  using assms
  by (simp add: getOrCompute_def Cachly_get_def count_miss_def CircuitBreaker_execute_def
      load_and_set_def execute_settle_def split: option.splits)

lemma getOrCompute_admitted_success:
  assumes "circuitBreaker st = Some cb" and "cb_enabled (cb_config cb)"
    and "map_of (items st) key = None"
    and "execute_enter now key (map_option (\<lambda>f k. Plain (f k)) (fallback (cfg_circuitBreaker (config st)))) cb = (Admit, cb1)"
    and "Cachly_set cdc key v options now' clk (count_miss st) = Some st2"
  shows "getOrCompute fuel cdc key (Inr v) options now now' clk st =
           Some (Inr (Plain v), 1, st2\<lparr>circuitBreaker := Some (onSuccess cb1)\<rparr>)"
  using assms
  by (simp add: getOrCompute_def Cachly_get_def count_miss_def CircuitBreaker_execute_def
      load_and_set_def execute_settle_def split: option.splits)

lemma getOrCompute_rejected:
  assumes "circuitBreaker st = Some cb" and "cb_enabled (cb_config cb)"
    and "map_of (items st) key = None"
    and "state (cb_state cb) = Open" and "now < nextAttemptTime (cb_state cb)"
  shows "getOrCompute fuel cdc key loader options now now' clk st =
           Some ((case fallback (cfg_circuitBreaker (config st)) of
                    Some f \<Rightarrow> Inr (Plain (f key))
                  | None \<Rightarrow> Inl (Error (''Circuit breaker is open for key: '' @ key))),
                 0, count_miss st)"
  using assms
  by (simp add: getOrCompute_def Cachly_get_def count_miss_def CircuitBreaker_execute_def
      execute_enter_def split: option.splits)

lemma enter_closed: 
  "cb_enabled (cb_config cb) \<Longrightarrow> state (cb_state cb) = Closed \<Longrightarrow> execute_enter now key fb cb = (Admit, cb)"
  by (simp add: execute_enter_def)

lemma enter_open_due: 
  "cb_enabled (cb_config cb) \<Longrightarrow> state (cb_state cb) = Open \<Longrightarrow> nextAttemptTime (cb_state cb) \<le> now \<Longrightarrow>
   execute_enter now key fb cb = (Admit, cb\<lparr>cb_state := (cb_state cb)\<lparr>state := HalfOpen\<rparr>\<rparr>)"
  by (simp add: execute_enter_def)

lemma onFailure_below:
  "cb_failureCount cb + 1 < failureThreshold (cb_config cb) \<Longrightarrow>
   state (cb_state (onFailure t cb)) = state (cb_state cb) \<and> cb_failureCount (onFailure t cb) = cb_failureCount cb + 1
   \<and> cb_config (onFailure t cb) = cb_config cb"
  by (simp add: onFailure_def Let_def)

lemma onFailure_trips:
  "failureThreshold (cb_config cb) \<le> cb_failureCount cb + 1 \<Longrightarrow>
   state (cb_state (onFailure t cb)) = Open \<and> cb_failureCount (onFailure t cb) = cb_failureCount cb + 1
   \<and> nextAttemptTime (cb_state (onFailure t cb)) = t + recoveryTimeout (cb_config cb)
   \<and> failureCount (cb_state (onFailure t cb)) = cb_failureCount cb + 1
   \<and> cb_config (onFailure t cb) = cb_config cb"
  by (simp add: onFailure_def Let_def)

lemma onSuccess_closes:
  "state (cb_state (onSuccess cb)) = Closed \<and> failureCount (cb_state (onSuccess cb)) = 0
   \<and> cb_failureCount (onSuccess cb) = 0 \<and> cb_config (onSuccess cb) = cb_config cb"
  by (simp add: onSuccess_def)

lemma failing_calls_trip:
  assumes "circuitBreaker st = Some cb" and "cb_enabled (cb_config cb)"
    and "state (cb_state cb) = Closed" and "map_of (items st) key = None"
    and "calls \<noteq> []"
    and "cb_failureCount cb + length calls = failureThreshold (cb_config cb)"
  shows "\<exists>st1 cb1. failing_calls fuel cdc key options clk calls st = Some (st1, length calls)
           \<and> circuitBreaker st1 = Some cb1 \<and> state (cb_state cb1) = Open
           \<and> nextAttemptTime (cb_state cb1) = snd (snd (last calls)) + recoveryTimeout (cb_config cb)
           \<and> cb_config cb1 = cb_config cb
           \<and> failureThreshold (cb_config cb) \<le> cb_failureCount cb1
           \<and> items st1 = items st \<and> config st1 = config st"
  using assms
proof (induction calls arbitrary: st cb)
  case Nil
  then show ?case by simp
next
  case (Cons c calls)
  obtain e now now' where c: "c = (e, now, now')" by (cases c) auto
  let ?fb = "map_option (\<lambda>f k. Plain (f k)) (fallback (cfg_circuitBreaker (config st)))"
  let ?st' = "(count_miss st)\<lparr>circuitBreaker := Some (onFailure now' cb)\<rparr>"
  have adm: "execute_enter now key ?fb cb = (Admit, cb)"
    using Cons.prems(2,3) by (rule enter_closed)
  have call: "getOrCompute fuel cdc key (Inl e) options now now' clk st =
     Some ((case fallback (cfg_circuitBreaker (config st)) of
                    Some f \<Rightarrow> Inr (Plain (f key)) | None \<Rightarrow> Inl e), 1, ?st')"
    using getOrCompute_admitted_failure [OF Cons.prems(1,2,4) adm] .
  have st': "items ?st' = items st" "config ?st' = config st"
    by (simp_all add: count_miss_def)
  show ?case
  proof (cases calls)
    case Nil
    have trip: "failureThreshold (cb_config cb) \<le> cb_failureCount cb + 1"
      using Cons.prems(6) Nil by simp
    from onFailure_trips [OF trip, of now'] show ?thesis
      using call Nil c st' trip by simp
  next
    case (Cons c' calls')
    have below: "cb_failureCount cb + 1 < failureThreshold (cb_config cb)"
      using Cons.prems(6) Cons by simp
    note f = onFailure_below [OF below, of now']
    have "\<exists>st1 cb1. failing_calls fuel cdc key options clk calls ?st' = Some (st1, length calls)
           \<and> circuitBreaker st1 = Some cb1 \<and> state (cb_state cb1) = Open
           \<and> nextAttemptTime (cb_state cb1) = snd (snd (last calls)) + recoveryTimeout (cb_config (onFailure now' cb))
           \<and> cb_config cb1 = cb_config (onFailure now' cb)
           \<and> failureThreshold (cb_config (onFailure now' cb)) \<le> cb_failureCount cb1
           \<and> items st1 = items ?st' \<and> config st1 = config ?st'"
    proof (rule Cons.IH)
      show "circuitBreaker ?st' = Some (onFailure now' cb)" by simp
      show "cb_enabled (cb_config (onFailure now' cb))" using f Cons.prems(2) by simp
      show "state (cb_state (onFailure now' cb)) = Closed" using f Cons.prems(3) by simp
      show "map_of (items ?st') key = None" using Cons.prems(4) st' by simp
      show "calls \<noteq> []" using Cons by simp
      show "cb_failureCount (onFailure now' cb) + length calls = failureThreshold (cb_config (onFailure now' cb))"
        using f Cons.prems(6) by simp
    qed
    then obtain st1 cb1 where r: "failing_calls fuel cdc key options clk calls ?st' = Some (st1, length calls)"
      "circuitBreaker st1 = Some cb1" "state (cb_state cb1) = Open"
      "nextAttemptTime (cb_state cb1) = snd (snd (last calls)) + recoveryTimeout (cb_config (onFailure now' cb))"
      "cb_config cb1 = cb_config (onFailure now' cb)"
      "failureThreshold (cb_config (onFailure now' cb)) \<le> cb_failureCount cb1"
      "items st1 = items ?st'" "config st1 = config ?st'"
      by blast
    show ?thesis
      using call r f c st' Cons by simp
  qed
qed

text \<open>
  C6. Let the breaker be enabled and closed with no failure counted, and let the
  threshold be the number \<open>n \<ge> 1\<close> of calls in \<open>calls\<close>, each a \<open>getOrCompute\<close> of an
  absent key whose loader throws. Then all \<open>n\<close> loaders are invoked and afterwards the
  breaker is open, with \<open>nextAttemptTime\<close> the time of the last failure plus the
  recovery timeout; nothing was stored. From then on, on any cache holding this breaker
  state: a call before \<open>nextAttemptTime\<close> invokes no loader and returns the fallback's
  value, or fails when there is no fallback; a call at or after \<open>nextAttemptTime\<close> is
  admitted with the breaker half-open and invokes the loader once: its success closes
  the breaker and resets both failure counts, its failure opens the breaker again with
  a new \<open>nextAttemptTime\<close>.
\<close>

theorem circuit_breaker_protocol:
  fixes st :: "'v cache"
  assumes "circuitBreaker st = Some cb" and "cb_enabled (cb_config cb)"
    and "state (cb_state cb) = Closed" and "cb_failureCount cb = 0"
    and "calls \<noteq> []" and "failureThreshold (cb_config cb) = length calls"
    and "map_of (items st) key = None"
  shows "\<exists>st1 cb1.
     failing_calls fuel cdc key options clk calls st = Some (st1, length calls)
     \<and> circuitBreaker st1 = Some cb1 \<and> state (cb_state cb1) = Open
     \<and> nextAttemptTime (cb_state cb1) = snd (snd (last calls)) + recoveryTimeout (cb_config cb)
     \<and> items st1 = items st \<and> config st1 = config st
     \<and> (\<forall>st' k loader opts now now'.
          circuitBreaker st' = Some cb1 \<and> map_of (items st') k = None
          \<and> now < nextAttemptTime (cb_state cb1) \<longrightarrow>
          getOrCompute fuel cdc k loader opts now now' clk st' =
            Some ((case fallback (cfg_circuitBreaker (config st')) of
                     Some f \<Rightarrow> Inr (Plain (f k))
                   | None \<Rightarrow> Inl (Error (''Circuit breaker is open for key: '' @ k))),
                  0, count_miss st'))
     \<and> (\<forall>st' k opts now now'.
          circuitBreaker st' = Some cb1 \<and> map_of (items st') k = None
          \<and> nextAttemptTime (cb_state cb1) \<le> now \<longrightarrow>
          fst (execute_enter now k fb cb1) = Admit
          \<and> state (cb_state (snd (execute_enter now k fb cb1))) = HalfOpen
          \<and> (\<forall>v st2. Cachly_set cdc k v opts now' clk (count_miss st') = Some st2 \<longrightarrow>
                (\<exists>cb2. getOrCompute fuel cdc k (Inr v) opts now now' clk st' =
                          Some (Inr (Plain v), 1, st2\<lparr>circuitBreaker := Some cb2\<rparr>)
                       \<and> state (cb_state cb2) = Closed \<and> failureCount (cb_state cb2) = 0
                       \<and> cb_failureCount cb2 = 0))
          \<and> (\<forall>e. \<exists>cb2. getOrCompute fuel cdc k (Inl e) opts now now' clk st' =
                          Some ((case fallback (cfg_circuitBreaker (config st')) of
                                   Some f \<Rightarrow> Inr (Plain (f k)) | None \<Rightarrow> Inl e),
                                1, (count_miss st')\<lparr>circuitBreaker := Some cb2\<rparr>)
                       \<and> state (cb_state cb2) = Open
                       \<and> nextAttemptTime (cb_state cb2) = now' + recoveryTimeout (cb_config cb)))"
proof -
  have "cb_failureCount cb + length calls = failureThreshold (cb_config cb)"
    using assms(4,6) by simp
  from failing_calls_trip [OF assms(1,2,3,7,5) this, of fuel cdc options clk]
  obtain st1 cb1 where r: "failing_calls fuel cdc key options clk calls st = Some (st1, length calls)"
    "circuitBreaker st1 = Some cb1" "state (cb_state cb1) = Open"
    "nextAttemptTime (cb_state cb1) = snd (snd (last calls)) + recoveryTimeout (cb_config cb)"
    "cb_config cb1 = cb_config cb" "failureThreshold (cb_config cb) \<le> cb_failureCount cb1"
    "items st1 = items st" "config st1 = config st"
    by blast
  have en1: "cb_enabled (cb_config cb1)" using r(5) assms(2) by simp
  have rejected: "getOrCompute fuel cdc k loader opts now now' clk st' =
            Some ((case fallback (cfg_circuitBreaker (config st')) of
                     Some f \<Rightarrow> Inr (Plain (f k))
                   | None \<Rightarrow> Inl (Error (''Circuit breaker is open for key: '' @ k))),
                  0, count_miss st')"
    if "circuitBreaker st' = Some cb1" "map_of (items st') k = None" "now < nextAttemptTime (cb_state cb1)"
    for st' :: "'v cache" and k loader opts now now'
    using getOrCompute_rejected [OF that(1) en1 that(2) r(3) that(3)] .
  let ?half = "cb1\<lparr>cb_state := (cb_state cb1)\<lparr>state := HalfOpen\<rparr>\<rparr>"
  have trip: "failureThreshold (cb_config ?half) \<le> cb_failureCount ?half + 1"
    using r(5,6) by simp
  have trial: "fst (execute_enter now k fb cb1) = Admit
          \<and> state (cb_state (snd (execute_enter now k fb cb1))) = HalfOpen
          \<and> (\<forall>v st2. Cachly_set cdc k v opts now' clk (count_miss st') = Some st2 \<longrightarrow>
                (\<exists>cb2. getOrCompute fuel cdc k (Inr v) opts now now' clk st' =
                          Some (Inr (Plain v), 1, st2\<lparr>circuitBreaker := Some cb2\<rparr>)
                       \<and> state (cb_state cb2) = Closed \<and> failureCount (cb_state cb2) = 0
                       \<and> cb_failureCount cb2 = 0))
          \<and> (\<forall>e. \<exists>cb2. getOrCompute fuel cdc k (Inl e) opts now now' clk st' =
                          Some ((case fallback (cfg_circuitBreaker (config st')) of
                                   Some f \<Rightarrow> Inr (Plain (f k)) | None \<Rightarrow> Inl e),
                                1, (count_miss st')\<lparr>circuitBreaker := Some cb2\<rparr>)
                       \<and> state (cb_state cb2) = Open
                       \<and> nextAttemptTime (cb_state cb2) = now' + recoveryTimeout (cb_config cb))"
    if cb': "circuitBreaker st' = Some cb1" and miss: "map_of (items st') k = None"
      and due: "nextAttemptTime (cb_state cb1) \<le> now"
    for st' :: "'v cache" and k opts now now'
  proof (intro conjI allI impI)
    show "fst (execute_enter now k fb cb1) = Admit"
      and "state (cb_state (snd (execute_enter now k fb cb1))) = HalfOpen"
      using enter_open_due [OF en1 r(3) due, of k fb] by simp_all
    note adm = enter_open_due [OF en1 r(3) due, of k
        "map_option (\<lambda>f k. Plain (f k)) (fallback (cfg_circuitBreaker (config st')))"]
    show "\<exists>cb2. getOrCompute fuel cdc k (Inr v) opts now now' clk st' =
                          Some (Inr (Plain v), 1, st2\<lparr>circuitBreaker := Some cb2\<rparr>)
                       \<and> state (cb_state cb2) = Closed \<and> failureCount (cb_state cb2) = 0
                       \<and> cb_failureCount cb2 = 0"
      if "Cachly_set cdc k v opts now' clk (count_miss st') = Some st2" for v st2
      using getOrCompute_admitted_success [OF cb' en1 miss adm that, of fuel]
        onSuccess_closes [of ?half]
      by blast
    show "\<exists>cb2. getOrCompute fuel cdc k (Inl e) opts now now' clk st' =
                          Some ((case fallback (cfg_circuitBreaker (config st')) of
                                   Some f \<Rightarrow> Inr (Plain (f k)) | None \<Rightarrow> Inl e),
                                1, (count_miss st')\<lparr>circuitBreaker := Some cb2\<rparr>)
                       \<and> state (cb_state cb2) = Open
                       \<and> nextAttemptTime (cb_state cb2) = now' + recoveryTimeout (cb_config cb)" for e
      using getOrCompute_admitted_failure [OF cb' en1 miss adm, of fuel cdc e opts now' clk]
        onFailure_trips [OF trip, of now'] r(5)
      by auto
  qed
  have A: "\<forall>st' k loader opts now now'.
          circuitBreaker st' = Some cb1 \<and> map_of (items st') k = None
          \<and> now < nextAttemptTime (cb_state cb1) \<longrightarrow>
          getOrCompute fuel cdc k loader opts now now' clk st' =
            Some ((case fallback (cfg_circuitBreaker (config st')) of
                     Some f \<Rightarrow> Inr (Plain (f k))
                   | None \<Rightarrow> Inl (Error (''Circuit breaker is open for key: '' @ k))),
                  0, count_miss st')"
  proof (intro allI impI, elim conjE)
    fix st' :: "'v cache" and k loader opts now now'
    assume "circuitBreaker st' = Some cb1" "map_of (items st') k = None"
      "now < nextAttemptTime (cb_state cb1)"
    then show "getOrCompute fuel cdc k loader opts now now' clk st' =
            Some ((case fallback (cfg_circuitBreaker (config st')) of
                     Some f \<Rightarrow> Inr (Plain (f k))
                   | None \<Rightarrow> Inl (Error (''Circuit breaker is open for key: '' @ k))),
                  0, count_miss st')"
      by (rule rejected)
  qed
  have B: "\<forall>st' k opts now now'.
          circuitBreaker st' = Some cb1 \<and> map_of (items st') k = None
          \<and> nextAttemptTime (cb_state cb1) \<le> now \<longrightarrow>
          fst (execute_enter now k fb cb1) = Admit
          \<and> state (cb_state (snd (execute_enter now k fb cb1))) = HalfOpen
          \<and> (\<forall>v st2. Cachly_set cdc k v opts now' clk (count_miss st') = Some st2 \<longrightarrow>
                (\<exists>cb2. getOrCompute fuel cdc k (Inr v) opts now now' clk st' =
                          Some (Inr (Plain v), 1, st2\<lparr>circuitBreaker := Some cb2\<rparr>)
                       \<and> state (cb_state cb2) = Closed \<and> failureCount (cb_state cb2) = 0
                       \<and> cb_failureCount cb2 = 0))
          \<and> (\<forall>e. \<exists>cb2. getOrCompute fuel cdc k (Inl e) opts now now' clk st' =
                          Some ((case fallback (cfg_circuitBreaker (config st')) of
                                   Some f \<Rightarrow> Inr (Plain (f k)) | None \<Rightarrow> Inl e),
                                1, (count_miss st')\<lparr>circuitBreaker := Some cb2\<rparr>)
                       \<and> state (cb_state cb2) = Open
                       \<and> nextAttemptTime (cb_state cb2) = now' + recoveryTimeout (cb_config cb))"
  proof (intro allI impI, elim conjE)
    fix st' :: "'v cache" and k opts now now'
    assume "circuitBreaker st' = Some cb1" "map_of (items st') k = None"
      "nextAttemptTime (cb_state cb1) \<le> now"
    then show "fst (execute_enter now k fb cb1) = Admit
          \<and> state (cb_state (snd (execute_enter now k fb cb1))) = HalfOpen
          \<and> (\<forall>v st2. Cachly_set cdc k v opts now' clk (count_miss st') = Some st2 \<longrightarrow>
                (\<exists>cb2. getOrCompute fuel cdc k (Inr v) opts now now' clk st' =
                          Some (Inr (Plain v), 1, st2\<lparr>circuitBreaker := Some cb2\<rparr>)
                       \<and> state (cb_state cb2) = Closed \<and> failureCount (cb_state cb2) = 0
                       \<and> cb_failureCount cb2 = 0))
          \<and> (\<forall>e. \<exists>cb2. getOrCompute fuel cdc k (Inl e) opts now now' clk st' =
                          Some ((case fallback (cfg_circuitBreaker (config st')) of
                                   Some f \<Rightarrow> Inr (Plain (f k)) | None \<Rightarrow> Inl e),
                                1, (count_miss st')\<lparr>circuitBreaker := Some cb2\<rparr>)
                       \<and> state (cb_state cb2) = Open
                       \<and> nextAttemptTime (cb_state cb2) = now' + recoveryTimeout (cb_config cb))"
      by (rule trial)
  qed
  show ?thesis
    by (intro exI [of _ st1] exI [of _ cb1] conjI) (fact r A B)+
qed

text \<open>
  The repository's test configuration (threshold 2, recovery timeout 100): two failures
  at times 0 and 2 open the breaker until 103; a call at 50 is rejected without a load,
  a call at 200 is admitted as the trial, and its failure opens the breaker until 301.
\<close>

theorem circuit_breaker_protocol_witness:
  "\<exists>st1 cb1.
     failing_calls 1 example_codec ''key'' no_options tick
        [(Error ''Simulated failure'', 0, 1), (Error ''Simulated failure'', 2, 3)]
        (new_Cachly breaker_config) = Some (st1, 2)
     \<and> circuitBreaker st1 = Some cb1 \<and> state (cb_state cb1) = Open
     \<and> nextAttemptTime (cb_state cb1) = 103
     \<and> getOrCompute 1 example_codec ''key'' (Inr ''value'') no_options 50 51 tick st1
         = Some (Inl (Error ''Circuit breaker is open for key: key''), 0, count_miss st1)
     \<and> fst (execute_enter 200 ''key'' (None :: (string \<Rightarrow> string stored) option) cb1) = Admit
     \<and> state (cb_state (snd (execute_enter 200 ''key'' (None :: (string \<Rightarrow> string stored) option) cb1))) = HalfOpen
     \<and> (\<exists>cb2. getOrCompute 1 example_codec ''key'' (Inl (Error ''Simulated failure'')) no_options 200 201 tick st1
                 = Some (Inl (Error ''Simulated failure''), 1, (count_miss st1)\<lparr>circuitBreaker := Some cb2\<rparr>)
              \<and> state (cb_state cb2) = Open \<and> nextAttemptTime (cb_state cb2) = 301)"
proof -
  let ?st = "new_Cachly breaker_config :: string cache"
  let ?cb = "new_CircuitBreaker (cfg_circuitBreaker breaker_config) :: string CircuitBreaker"
  let ?calls = "[(Error ''Simulated failure'', 0, 1), (Error ''Simulated failure'', 2, 3)] :: (error \<times> int \<times> int) list"
  have h1: "circuitBreaker ?st = Some ?cb"
    by (simp add: new_Cachly_def breaker_config_def default_config_def)
  have h2: "cb_enabled (cb_config ?cb)"
    by (simp add: new_CircuitBreaker_def breaker_config_def default_config_def)
  have h3: "state (cb_state ?cb) = Closed" and h4: "cb_failureCount ?cb = 0"
    by (simp_all add: new_CircuitBreaker_def)
  have h5: "?calls \<noteq> []" by simp
  have h6: "failureThreshold (cb_config ?cb) = length ?calls"
    by (simp add: new_CircuitBreaker_def breaker_config_def default_config_def)
  have h7: "map_of (items ?st) ''key'' = None"
    by (simp add: new_Cachly_def)
  have rt: "recoveryTimeout (cb_config ?cb) = 100"
    by (simp add: new_CircuitBreaker_def breaker_config_def default_config_def)
  from circuit_breaker_protocol [OF h1 h2 h3 h4 h5 h6 h7, where fuel = 1 and cdc = example_codec
      and options = no_options and clk = tick and fb = "None :: (string \<Rightarrow> string stored) option"]
  obtain st1 cb1 where r:
    "failing_calls 1 example_codec ''key'' no_options tick ?calls ?st = Some (st1, length ?calls)"
    "circuitBreaker st1 = Some cb1" "state (cb_state cb1) = Open"
    "nextAttemptTime (cb_state cb1) = snd (snd (last ?calls)) + recoveryTimeout (cb_config ?cb)"
    "items st1 = items ?st" "config st1 = config ?st"
    and rej: "\<forall>st' k loader opts now now'.
          circuitBreaker st' = Some cb1 \<and> map_of (items st') k = None
          \<and> now < nextAttemptTime (cb_state cb1) \<longrightarrow>
          getOrCompute 1 example_codec k loader opts now now' tick st' =
            Some ((case fallback (cfg_circuitBreaker (config st')) of
                     Some f \<Rightarrow> Inr (Plain (f k))
                   | None \<Rightarrow> Inl (Error (''Circuit breaker is open for key: '' @ k))),
                  0, count_miss st')"
    and trial: "\<forall>st' k opts now now'.
          circuitBreaker st' = Some cb1 \<and> map_of (items st') k = None
          \<and> nextAttemptTime (cb_state cb1) \<le> now \<longrightarrow>
          fst (execute_enter now k (None :: (string \<Rightarrow> string stored) option) cb1) = Admit
          \<and> state (cb_state (snd (execute_enter now k (None :: (string \<Rightarrow> string stored) option) cb1))) = HalfOpen
          \<and> (\<forall>v st2. Cachly_set example_codec k v opts now' tick (count_miss st') = Some st2 \<longrightarrow>
                (\<exists>cb2. getOrCompute 1 example_codec k (Inr v) opts now now' tick st' =
                          Some (Inr (Plain v), 1, st2\<lparr>circuitBreaker := Some cb2\<rparr>)
                       \<and> state (cb_state cb2) = Closed \<and> failureCount (cb_state cb2) = 0
                       \<and> cb_failureCount cb2 = 0))
          \<and> (\<forall>e. \<exists>cb2. getOrCompute 1 example_codec k (Inl e) opts now now' tick st' =
                          Some ((case fallback (cfg_circuitBreaker (config st')) of
                                   Some f \<Rightarrow> Inr (Plain (f k)) | None \<Rightarrow> Inl e),
                                1, (count_miss st')\<lparr>circuitBreaker := Some cb2\<rparr>)
                       \<and> state (cb_state cb2) = Open
                       \<and> nextAttemptTime (cb_state cb2) = now' + recoveryTimeout (cb_config ?cb))"
    by (elim exE conjE) (rule that)
  have calls: "failing_calls 1 example_codec ''key'' no_options tick ?calls ?st = Some (st1, 2)"
    using r(1) by simp
  have st1: "items st1 = [] \<and> fallback (cfg_circuitBreaker (config st1)) = None"
    using r(5,6) by (simp add: new_Cachly_def breaker_config_def default_config_def)
  have nxt: "nextAttemptTime (cb_state cb1) = 103"
    using r(4) rt by simp
  have a: "getOrCompute 1 example_codec ''key'' (Inr ''value'') no_options 50 51 tick st1
         = Some (Inl (Error ''Circuit breaker is open for key: key''), 0, count_miss st1)"
    using rej [rule_format, of st1 "''key''" 50 "Inr ''value''" no_options 51] r(2) st1 nxt by simp
  have b: "fst (execute_enter 200 ''key'' (None :: (string \<Rightarrow> string stored) option) cb1) = Admit
     \<and> state (cb_state (snd (execute_enter 200 ''key'' (None :: (string \<Rightarrow> string stored) option) cb1))) = HalfOpen
     \<and> (\<exists>cb2. getOrCompute 1 example_codec ''key'' (Inl (Error ''Simulated failure'')) no_options 200 201 tick st1
                 = Some (Inl (Error ''Simulated failure''), 1, (count_miss st1)\<lparr>circuitBreaker := Some cb2\<rparr>)
              \<and> state (cb_state cb2) = Open \<and> nextAttemptTime (cb_state cb2) = 301)"
    using trial [rule_format, of st1 "''key''" 200 no_options 201] r(2) st1 nxt rt by simp
  show ?thesis
    using calls r(2,3) nxt a b by blast
qed


subsection \<open>Eviction\<close>

lemma find_app: "find P (xs @ ys) = (case find P xs of None \<Rightarrow> find P ys | Some x \<Rightarrow> Some x)"
  by (induction xs) auto

lemma find_in_set: "find P xs = Some x \<Longrightarrow> x \<in> set xs"
  by (induction xs) (auto split: if_splits)

lemma first_minimal_in_set: "first_minimal f its = Some kv \<Longrightarrow> kv \<in> set its"
  unfolding first_minimal_def by (rule find_in_set)

lemma first_minimal_split:
  assumes "\<forall>y \<in> set pre. f (snd kv) < f (snd y)" and "\<forall>y \<in> set post. f (snd kv) \<le> f (snd y)"
  shows "first_minimal f (pre @ kv # post) = Some kv"
proof -
  let ?P = "\<lambda>x. \<forall>kv' \<in> set (pre @ kv # post). f (snd x) \<le> f (snd kv')"
  have "\<not> ?P y" if "y \<in> set pre" for y
    using assms(1) that by (auto simp: not_le)
  then have "find ?P pre = None"
    by (subst find_None_iff) blast
  moreover have "?P kv"
    using assms by (auto intro: less_imp_le)
  ultimately show ?thesis
    by (simp add: first_minimal_def find_app)
qed

lemma lfu_scan_snoc: "lfu_scan (its @ [x]) = lfu_step (lfu_scan its) x"
  by (simp add: lfu_scan_def)

lemma lfu_scan_inv:
  "its = [] \<and> lfu_scan its = (None, None)
   \<or> (\<exists>pre kv post. its = pre @ kv # post
        \<and> lfu_scan its = (Some (fst kv), Some (accessCount (snd kv)))
        \<and> (\<forall>y \<in> set pre. accessCount (snd kv) < accessCount (snd y))
        \<and> (\<forall>y \<in> set post. accessCount (snd kv) \<le> accessCount (snd y)))"
proof (induction its rule: rev_induct)
  case Nil
  show ?case by (simp add: lfu_scan_def)
next
  case (snoc x xs)
  from snoc.IH show ?case
  proof (elim disjE conjE exE)
    assume "xs = []" "lfu_scan xs = (None, None)"
    then have "xs @ [x] = [] @ x # []"
      and "lfu_scan (xs @ [x]) = (Some (fst x), Some (accessCount (snd x)))"
      by (simp_all add: lfu_scan_def lfu_step_def)
    then show ?thesis
      by (intro disjI2 exI [of _ "[]"] exI [of _ x]) simp
  next
    fix pre kv post
    assume xs: "xs = pre @ kv # post"
      and sc: "lfu_scan xs = (Some (fst kv), Some (accessCount (snd kv)))"
      and pre: "\<forall>y \<in> set pre. accessCount (snd kv) < accessCount (snd y)"
      and post: "\<forall>y \<in> set post. accessCount (snd kv) \<le> accessCount (snd y)"
    show ?thesis
    proof (cases "accessCount (snd x) < accessCount (snd kv)")
      case True
      have "lfu_scan (xs @ [x]) = (Some (fst x), Some (accessCount (snd x)))"
        using True sc by (simp add: lfu_scan_snoc lfu_step_def)
      moreover have "\<forall>y \<in> set xs. accessCount (snd x) < accessCount (snd y)"
      proof
        fix y assume "y \<in> set xs"
        then have "y \<in> set pre \<or> y = kv \<or> y \<in> set post" using xs by auto
        then have "accessCount (snd kv) \<le> accessCount (snd y)"
          using pre post by (auto intro: less_imp_le)
        then show "accessCount (snd x) < accessCount (snd y)" using True by simp
      qed
      ultimately show ?thesis
        by (intro disjI2 exI [of _ xs] exI [of _ x] exI [of _ "[]"]) simp
    next
      case False
      have "lfu_scan (xs @ [x]) = (Some (fst kv), Some (accessCount (snd kv)))"
        using False sc by (simp add: lfu_scan_snoc lfu_step_def)
      moreover have "\<forall>y \<in> set (post @ [x]). accessCount (snd kv) \<le> accessCount (snd y)"
        using False post by auto
      ultimately show ?thesis
        using pre xs by (intro disjI2 exI [of _ pre] exI [of _ kv] exI [of _ "post @ [x]"]) simp
    qed
  qed
qed

lemma lfu_scan_first_minimal:
  "fst (lfu_scan its) = map_option fst (first_minimal accessCount its)"
proof -
  from lfu_scan_inv [of its] show ?thesis
  proof (elim disjE conjE exE)
    assume "its = []" "lfu_scan its = (None, None)"
    then show ?thesis by (simp add: first_minimal_def)
  next
    fix pre kv post
    assume "its = pre @ kv # post" "lfu_scan its = (Some (fst kv), Some (accessCount (snd kv)))"
      "\<forall>y \<in> set pre. accessCount (snd kv) < accessCount (snd y)"
      "\<forall>y \<in> set post. accessCount (snd kv) \<le> accessCount (snd y)"
    then show ?thesis by (simp add: first_minimal_split)
  qed
qed

lemma lru_scan_snoc: "lru_scan now (its @ [x]) = lru_step (lru_scan now its) x"
  by (simp add: lru_scan_def)

lemma lru_scan_inv:
  "lru_scan now its = (None, now) \<and> (\<forall>y \<in> set its. now \<le> lastAccessed (snd y))
   \<or> (\<exists>pre kv post. its = pre @ kv # post
        \<and> lru_scan now its = (Some (fst kv), lastAccessed (snd kv))
        \<and> lastAccessed (snd kv) < now
        \<and> (\<forall>y \<in> set pre. lastAccessed (snd kv) < lastAccessed (snd y))
        \<and> (\<forall>y \<in> set post. lastAccessed (snd kv) \<le> lastAccessed (snd y)))"
proof (induction its rule: rev_induct)
  case Nil
  show ?case by (simp add: lru_scan_def)
next
  case (snoc x xs)
  from snoc.IH show ?case
  proof (elim disjE conjE exE)
    assume sc: "lru_scan now xs = (None, now)" and all: "\<forall>y \<in> set xs. now \<le> lastAccessed (snd y)"
    show ?thesis
    proof (cases "lastAccessed (snd x) < now")
      case True
      have "lru_scan now (xs @ [x]) = (Some (fst x), lastAccessed (snd x))"
        using True sc by (simp add: lru_scan_snoc lru_step_def)
      moreover have "\<forall>y \<in> set xs. lastAccessed (snd x) < lastAccessed (snd y)"
        using True all by fastforce
      ultimately show ?thesis
        using True by (intro disjI2 exI [of _ xs] exI [of _ x] exI [of _ "[]"]) simp
    next
      case False
      then show ?thesis using sc all by (simp add: lru_scan_snoc lru_step_def)
    qed
  next
    fix pre kv post
    assume xs: "xs = pre @ kv # post"
      and sc: "lru_scan now xs = (Some (fst kv), lastAccessed (snd kv))"
      and lt: "lastAccessed (snd kv) < now"
      and pre: "\<forall>y \<in> set pre. lastAccessed (snd kv) < lastAccessed (snd y)"
      and post: "\<forall>y \<in> set post. lastAccessed (snd kv) \<le> lastAccessed (snd y)"
    show ?thesis
    proof (cases "lastAccessed (snd x) < lastAccessed (snd kv)")
      case True
      have "lru_scan now (xs @ [x]) = (Some (fst x), lastAccessed (snd x))"
        using True sc by (simp add: lru_scan_snoc lru_step_def)
      moreover have "\<forall>y \<in> set xs. lastAccessed (snd x) < lastAccessed (snd y)"
      proof
        fix y assume "y \<in> set xs"
        then have "y \<in> set pre \<or> y = kv \<or> y \<in> set post" using xs by auto
        then have "lastAccessed (snd kv) \<le> lastAccessed (snd y)"
          using pre post by (auto intro: less_imp_le)
        then show "lastAccessed (snd x) < lastAccessed (snd y)" using True by simp
      qed
      moreover have "lastAccessed (snd x) < now" using True lt by simp
      ultimately show ?thesis
        by (intro disjI2 exI [of _ xs] exI [of _ x] exI [of _ "[]"]) simp
    next
      case False
      have "lru_scan now (xs @ [x]) = (Some (fst kv), lastAccessed (snd kv))"
        using False sc by (simp add: lru_scan_snoc lru_step_def)
      moreover have "\<forall>y \<in> set (post @ [x]). lastAccessed (snd kv) \<le> lastAccessed (snd y)"
        using False post by auto
      ultimately show ?thesis
        using pre lt xs by (intro disjI2 exI [of _ pre] exI [of _ kv] exI [of _ "post @ [x]"]) simp
    qed
  qed
qed

lemma lru_scan_first_minimal:
  "fst (lru_scan now its) =
     (case first_minimal lastAccessed its of
        None \<Rightarrow> None
      | Some kv \<Rightarrow> if lastAccessed (snd kv) < now then Some (fst kv) else None)"
proof -
  from lru_scan_inv [of now its] show ?thesis
  proof (elim disjE conjE exE)
    assume sc: "lru_scan now its = (None, now)" and all: "\<forall>y \<in> set its. now \<le> lastAccessed (snd y)"
    show ?thesis
    proof (cases "first_minimal lastAccessed its")
      case None
      then show ?thesis using sc by simp
    next
      case (Some kv)
      then have "kv \<in> set its" by (rule first_minimal_in_set)
      then have "\<not> lastAccessed (snd kv) < now" using all by (simp add: not_less)
      then show ?thesis using sc Some by simp
    qed
  next
    fix pre kv post
    assume "its = pre @ kv # post" "lru_scan now its = (Some (fst kv), lastAccessed (snd kv))"
      "lastAccessed (snd kv) < now"
      "\<forall>y \<in> set pre. lastAccessed (snd kv) < lastAccessed (snd y)"
      "\<forall>y \<in> set post. lastAccessed (snd kv) \<le> lastAccessed (snd y)"
    then show ?thesis by (simp add: first_minimal_split)
  qed
qed


lemma items_evictLFU:
  "items (evictLFU s) =
     (case first_minimal accessCount (items s) of
        None \<Rightarrow> items s
      | Some kv \<Rightarrow> if fst kv = [] then items s else AList.delete (fst kv) (items s))"
  by (simp add: evictLFU_def lfu_scan_first_minimal evict_key_def updateStats_def
      split: option.splits)

lemma items_evictLRU:
  "items (evictLRU t s) =
     (case first_minimal lastAccessed (items s) of
        None \<Rightarrow> items s
      | Some kv \<Rightarrow> if lastAccessed (snd kv) < t \<and> fst kv \<noteq> [] then AList.delete (fst kv) (items s)
                   else items s)"
  by (simp add: evictLRU_def lru_scan_first_minimal evict_key_def updateStats_def
      split: option.splits)

lemma first_minimal_accessCount_nonempty:
  fixes its :: "(string \<times> 'v CacheItem) list"
  shows "its \<noteq> [] \<Longrightarrow> \<exists>kv. first_minimal accessCount its = Some kv \<and> kv \<in> set its"
  using lfu_scan_inv [of its] by (auto simp: first_minimal_split)

lemma first_minimal_lastAccessed_nonempty:
  fixes its :: "(string \<times> 'v CacheItem) list"
  assumes "its \<noteq> []" and "\<forall>kv \<in> set its. lastAccessed (snd kv) < t"
  shows "\<exists>kv. first_minimal lastAccessed its = Some kv \<and> kv \<in> set its"
proof -
  from lru_scan_inv [of t its] assms obtain pre kv post where "its = pre @ kv # post"
    "\<forall>y \<in> set pre. lastAccessed (snd kv) < lastAccessed (snd y)"
    "\<forall>y \<in> set post. lastAccessed (snd kv) \<le> lastAccessed (snd y)"
    by (cases its) (auto simp: not_le)
  then show ?thesis by (auto simp: first_minimal_split)
qed

lemma length_delete_less:
  "kv \<in> set al \<Longrightarrow> length (AList.delete (fst kv) al) < length al"
  unfolding AList.delete_eq by (rule length_filter_less [of kv]) auto

lemma config_evict: "config (evict t s) = config s"
  by (simp add: evict_def evictLRU_def evictLFU_def evictTTL_def evict_key_def updateStats_def
      Let_def split: policy.splits option.splits)

lemma items_evict_subset: "set (items (evict t s)) \<subseteq> set (items s)"
  by (auto simp: evict_def evictLRU_def evictLFU_def evictTTL_def evict_key_def updateStats_def
      Let_def AList.delete_eq split: policy.splits option.splits)

lemma length_evict_le: "length (items (evict t s)) \<le> length (items s)"
  by (auto simp: evict_def evictLRU_def evictLFU_def evictTTL_def evict_key_def updateStats_def
      Let_def AList.delete_eq split: policy.splits option.splits)

lemma evictLFU_shrinks:
  assumes "items s \<noteq> []" and "[] \<notin> fst ` set (items s)"
  shows "length (items (evictLFU s)) < length (items s)"
proof -
  obtain kv where kv: "first_minimal accessCount (items s) = Some kv" "kv \<in> set (items s)"
    using first_minimal_accessCount_nonempty [OF assms(1)] by blast
  then have "fst kv \<noteq> []" using assms(2) by force
  then show ?thesis using kv by (simp add: items_evictLFU length_delete_less)
qed

lemma evictLRU_shrinks:
  assumes "items s \<noteq> []" and "[] \<notin> fst ` set (items s)"
    and "\<forall>kv \<in> set (items s). lastAccessed (snd kv) < t"
  shows "length (items (evictLRU t s)) < length (items s)"
proof -
  obtain kv where kv: "first_minimal lastAccessed (items s) = Some kv" "kv \<in> set (items s)"
    using first_minimal_lastAccessed_nonempty [OF assms(1,3)] by blast
  then have "fst kv \<noteq> []" and "lastAccessed (snd kv) < t" using assms(2,3) by force+
  then show ?thesis using kv by (simp add: items_evictLRU length_delete_less)
qed

lemma evictIfNeeded_bound:
  assumes "evictIfNeeded clk i st = Some st'"
  shows "config st' = config st \<and> set (items st') \<subseteq> set (items st)
     \<and> (maxItems (config st') = 0 \<or> length (items st') \<le> maxItems (config st'))"
proof (rule evictIfNeeded.raw_induct [where P = "\<lambda>clk i st st'.
     config st' = config st \<and> set (items st') \<subseteq> set (items st)
     \<and> (maxItems (config st') = 0 \<or> length (items st') \<le> maxItems (config st'))", OF _ assms])
  fix f :: "(nat \<Rightarrow> int) \<Rightarrow> nat \<Rightarrow> 'a cache \<Rightarrow> 'a cache option" and clk i st st'
  assume IH: "\<And>clk i st st'. f clk i st = Some st' \<Longrightarrow>
     config st' = config st \<and> set (items st') \<subseteq> set (items st)
     \<and> (maxItems (config st') = 0 \<or> length (items st') \<le> maxItems (config st'))"
    and body: "(if maxItems (config st) \<noteq> 0 \<and> maxItems (config st) < length (items st)
      then f clk (Suc i) (evict (clk i) st) else Some st) = Some st'"
  show "config st' = config st \<and> set (items st') \<subseteq> set (items st)
     \<and> (maxItems (config st') = 0 \<or> length (items st') \<le> maxItems (config st'))"
  proof (cases "maxItems (config st) \<noteq> 0 \<and> maxItems (config st) < length (items st)")
    case True
    then have "f clk (Suc i) (evict (clk i) st) = Some st'"
      using body by simp
    from IH [OF this] show ?thesis
      using items_evict_subset [of "clk i" st] by (auto simp: config_evict)
  next
    case False
    then have "st' = st" using body by (simp split: if_splits)
    then show ?thesis using False by auto
  qed
qed

lemma evictIfNeeded_terminates_from:
  assumes "[] \<notin> fst ` set (items st)" and "evicts_from clk i st"
  shows "\<exists>st'. evictIfNeeded clk i st = Some st'"
  using assms
proof (induction "length (items st)" arbitrary: i st rule: less_induct)
  case less
  show ?case
  proof (cases "maxItems (config st) \<noteq> 0 \<and> maxItems (config st) < length (items st)")
    case False
    then show ?thesis by (subst evictIfNeeded.simps) auto
  next
    case True
    let ?s = "evict (clk i) st"
    have ne: "items st \<noteq> []" using True by auto
    have shr: "length (items ?s) < length (items st)"
      using less.prems ne
      by (auto simp: evicts_from_def evict_def evictLFU_shrinks evictLRU_shrinks)
    have sub: "set (items ?s) \<subseteq> set (items st)" by (rule items_evict_subset)
    have "[] \<notin> fst ` set (items ?s)" using less.prems(1) sub by auto
    moreover have "evicts_from clk (Suc i) ?s"
    proof -
      have "\<forall>kv \<in> set (items ?s). lastAccessed (snd kv) < clk j"
        if "\<forall>j\<ge>i. \<forall>kv \<in> set (items st). lastAccessed (snd kv) < clk j" "Suc i \<le> j" for j
        using that sub by (meson Suc_leD subsetD)
      then show ?thesis
        using less.prems(2) by (auto simp: evicts_from_def config_evict)
    qed
    ultimately have "\<exists>st'. evictIfNeeded clk (Suc i) ?s = Some st'"
      using less.hyps [OF shr] by blast
    then show ?thesis using True by (subst evictIfNeeded.simps) simp
  qed
qed

lemma evictIfNeeded_terminates_lru:
  assumes "evictionPolicy (config st) = LRU" and "[] \<notin> fst ` set (items st)"
    and "\<forall>j\<ge>i0. \<forall>kv \<in> set (items st). lastAccessed (snd kv) < clk j"
  shows "\<exists>st'. evictIfNeeded clk i st = Some st'"
  using assms
proof (induction "i0 - i" arbitrary: i st rule: less_induct)
  case less
  show ?case
  proof (cases "i0 \<le> i")
    case True
    then have "evicts_from clk i st"
      using less.prems(1,3) by (auto simp: evicts_from_def)
    then show ?thesis using less.prems(2) by (rule evictIfNeeded_terminates_from [rotated])
  next
    case False
    show ?thesis
    proof (cases "maxItems (config st) \<noteq> 0 \<and> maxItems (config st) < length (items st)")
      case False
      then show ?thesis by (subst evictIfNeeded.simps) auto
    next
      case True
      let ?s = "evict (clk i) st"
      have sub: "set (items ?s) \<subseteq> set (items st)" by (rule items_evict_subset)
      have "i0 - Suc i < i0 - i" using \<open>\<not> i0 \<le> i\<close> by simp
      moreover have "evictionPolicy (config ?s) = LRU"
        using less.prems(1) by (simp add: config_evict)
      moreover have "[] \<notin> fst ` set (items ?s)" using less.prems(2) sub by auto
      moreover have "\<forall>j\<ge>i0. \<forall>kv \<in> set (items ?s). lastAccessed (snd kv) < clk j"
        using less.prems(3) sub by blast
      ultimately have "\<exists>st'. evictIfNeeded clk (Suc i) ?s = Some st'"
        by (rule less.hyps)
      then show ?thesis using True by (subst evictIfNeeded.simps) simp
    qed
  qed
qed

lemma update_same_projection:
  "map_of al k = Some v \<Longrightarrow> g (k, v') = g (k, v) \<Longrightarrow> map g (AList.update k v' al) = map g al"
  by (induction al) (auto split: if_splits)

lemma set_update_subset: "set (AList.update k v al) \<subseteq> insert (k, v) (set al)"
  by (induction al) auto

lemma add_dependent_projection:
  assumes "\<And>k it d. g (k, it\<lparr>dependents := d\<rparr>) = g (k, it)"
  shows "map g (items (add_dependent key dep s)) = map g (items s)"
  by (auto simp: add_dependent_def assms intro: update_same_projection split: option.splits)

lemma updateDependencies_projection:
  assumes "\<And>k it d. g (k, it\<lparr>dependents := d\<rparr>) = g (k, it)"
  shows "map g (items (updateDependencies key deps s)) = map g (items s)"
  unfolding updateDependencies_def
  by (induction deps arbitrary: s) (simp_all add: add_dependent_projection [of g, OF assms])

lemma config_add_dependent: "config (add_dependent key dep s) = config s"
  by (simp add: add_dependent_def split: option.splits)

lemma config_updateDependencies: "config (updateDependencies key deps s) = config s"
  unfolding updateDependencies_def
  by (induction deps arbitrary: s) (simp_all add: config_add_dependent)

lemma items_add_tag: "items (add_tag now key tag s) = items s" "config (add_tag now key tag s) = config s"
  by (simp_all add: add_tag_def Let_def)

lemma items_updateTags: "items (updateTags now key tgs s) = items s \<and> config (updateTags now key tgs s) = config s"
  unfolding updateTags_def
  by (induction tgs arbitrary: s) (simp_all add: items_add_tag)

lemma config_store_entry: "config (store_entry cdc key v options now st) = config st"
  by (simp add: store_entry_def Let_def updateStats_def items_updateTags config_updateDependencies)

lemma store_entry_projection:
  assumes "\<And>k it d. g (k, it\<lparr>dependents := d\<rparr>) = g (k, it)"
  shows "set (map g (items (store_entry cdc key v options now st)))
           \<subseteq> insert (g (key, new_item cdc v options now (config st))) (set (map g (items st)))"
proof -
  have "map g (items (store_entry cdc key v options now st))
          = map g (AList.update key (new_item cdc v options now (config st)) (items st))"
    by (simp add: store_entry_def Let_def updateStats_def items_updateTags
        updateDependencies_projection [of g, OF assms])
  then show ?thesis
    using set_update_subset [of key "new_item cdc v options now (config st)" "items st"]
    by auto
qed

lemma keys_store_entry:
  "fst ` set (items (store_entry cdc key v options now st)) \<subseteq> insert key (fst ` set (items st))"
  using store_entry_projection [of fst cdc key v options now st] by auto

lemma lastAccessed_store_entry:
  assumes "kv \<in> set (items (store_entry cdc key v options now st))"
  shows "lastAccessed (snd kv) = now \<or> (\<exists>kv0 \<in> set (items st). lastAccessed (snd kv0) = lastAccessed (snd kv))"
proof -
  have "lastAccessed (snd kv) \<in> set (map (\<lambda>kv. lastAccessed (snd kv)) (items (store_entry cdc key v options now st)))"
    using assms by auto
  then have "lastAccessed (snd kv) \<in> insert (lastAccessed (new_item cdc v options now (config st)))
       (set (map (\<lambda>kv. lastAccessed (snd kv)) (items st)))"
    using store_entry_projection [of "\<lambda>kv. lastAccessed (snd kv)" cdc key v options now st] by auto
  then show ?thesis by (force simp: new_item_def Let_def)
qed

text \<open>
  C1 (amended). Let \<open>maxItems\<close> be at least 1. Whenever \<open>set\<close> returns, at most
  \<open>maxItems\<close> entries are resident (under any policy). Under the lfu policy, and under
  the lru policy when the clock read by the eviction loop eventually passes the time of
  the \<open>set\<close> and every entry's \<open>lastAccessed\<close>, \<open>set\<close> does return, provided no
  resident key and not the new key is the empty string. One pass of \<open>evictLRU\<close>
  removes the first entry in iteration order with the least \<open>lastAccessed\<close> (if that
  is before the clock reading and its key is not empty), one pass of \<open>evictLFU\<close> the
  first entry with the least \<open>accessCount\<close> (if its key is not empty).
\<close>

theorem set_respects_capacity:
  fixes st :: "'v cache"
  assumes "maxItems (config st) \<noteq> 0"
  shows "(\<forall>st'. Cachly_set cdc key v options now clk st = Some st' \<longrightarrow>
            length (items st') \<le> maxItems (config st'))
     \<and> ((evictionPolicy (config st) = LFU
          \<or> evictionPolicy (config st) = LRU
             \<and> (\<exists>i0. \<forall>j\<ge>i0. now < clk j \<and> (\<forall>kv \<in> set (items st). lastAccessed (snd kv) < clk j)))
         \<and> key \<noteq> [] \<and> [] \<notin> fst ` set (items st)
         \<longrightarrow> (\<exists>st'. Cachly_set cdc key v options now clk st = Some st'))
     \<and> (\<forall>t (s :: 'v cache).
           items (evictLRU t s) =
             (case first_minimal lastAccessed (items s) of
                None \<Rightarrow> items s
              | Some kv \<Rightarrow> if lastAccessed (snd kv) < t \<and> fst kv \<noteq> []
                           then AList.delete (fst kv) (items s) else items s)
           \<and> items (evictLFU s) =
             (case first_minimal accessCount (items s) of
                None \<Rightarrow> items s
              | Some kv \<Rightarrow> if fst kv = [] then items s else AList.delete (fst kv) (items s)))"
proof (intro conjI allI impI)
  let ?s = "store_entry cdc key v options now st"
  show "length (items st') \<le> maxItems (config st')"
    if "Cachly_set cdc key v options now clk st = Some st'" for st'
    using evictIfNeeded_bound [of clk 0 ?s st'] that assms
    by (auto simp: Cachly_set_def config_store_entry)
  show "\<exists>st'. Cachly_set cdc key v options now clk st = Some st'"
    if h: "(evictionPolicy (config st) = LFU
          \<or> evictionPolicy (config st) = LRU
             \<and> (\<exists>i0. \<forall>j\<ge>i0. now < clk j \<and> (\<forall>kv \<in> set (items st). lastAccessed (snd kv) < clk j)))
         \<and> key \<noteq> [] \<and> [] \<notin> fst ` set (items st)"
  proof -
    have keys: "[] \<notin> fst ` set (items ?s)"
      using h keys_store_entry [of cdc key v options now st] by auto
    from h have "evictionPolicy (config st) = LFU
          \<or> evictionPolicy (config st) = LRU
             \<and> (\<exists>i0. \<forall>j\<ge>i0. now < clk j \<and> (\<forall>kv \<in> set (items st). lastAccessed (snd kv) < clk j))"
      by blast
    then show ?thesis
    proof (elim disjE conjE exE)
      assume "evictionPolicy (config st) = LFU"
      then have "evicts_from clk 0 ?s"
        by (simp add: evicts_from_def config_store_entry)
      from evictIfNeeded_terminates_from [OF keys this] show ?thesis
        by (simp add: Cachly_set_def)
    next
      fix i0
      assume lru: "evictionPolicy (config st) = LRU"
        and clock: "\<forall>j\<ge>i0. now < clk j \<and> (\<forall>kv \<in> set (items st). lastAccessed (snd kv) < clk j)"
      have "\<forall>j\<ge>i0. \<forall>kv \<in> set (items ?s). lastAccessed (snd kv) < clk j"
      proof (intro allI impI ballI)
        fix j kv assume "i0 \<le> j" "kv \<in> set (items ?s)"
        then show "lastAccessed (snd kv) < clk j"
          using lastAccessed_store_entry [of kv cdc key v options now st] clock by force
      qed
      from evictIfNeeded_terminates_lru [of ?s, OF _ keys this] lru show ?thesis
        by (simp add: Cachly_set_def config_store_entry)
    qed
  qed
qed (simp_all add: items_evictLRU items_evictLFU)

text \<open>The loop has no value when every pass leaves an over-full store as it is.\<close>

lemma evictIfNeeded_diverges:
  assumes stuck: "\<And>s j. items s = its \<Longrightarrow> config s = cfg \<Longrightarrow> items (evict (clk j) s) = its"
    and over: "maxItems cfg \<noteq> 0" "maxItems cfg < length its"
    and st: "items st = its" "config st = cfg"
  shows "evictIfNeeded clk i st = None"
proof (rule ccontr)
  assume "evictIfNeeded clk i st \<noteq> None"
  then obtain y where y: "evictIfNeeded clk i st = Some y" by auto
  have "clk = clk \<longrightarrow> items st = its \<longrightarrow> config st = cfg \<longrightarrow> False"
  proof (rule evictIfNeeded.raw_induct [where P = "\<lambda>c i s y. c = clk \<longrightarrow> items s = its \<longrightarrow> config s = cfg \<longrightarrow> False", OF _ y])
    fix f :: "(nat \<Rightarrow> int) \<Rightarrow> nat \<Rightarrow> 'a cache \<Rightarrow> 'a cache option" and c i s y
    assume IH: "\<And>c i s y. f c i s = Some y \<Longrightarrow> c = clk \<longrightarrow> items s = its \<longrightarrow> config s = cfg \<longrightarrow> False"
      and body: "(if maxItems (config s) \<noteq> 0 \<and> maxItems (config s) < length (items s)
        then f c (Suc i) (evict (c i) s) else Some s) = Some y"
    show "c = clk \<longrightarrow> items s = its \<longrightarrow> config s = cfg \<longrightarrow> False"
    proof (intro impI)
      assume h: "c = clk" "items s = its" "config s = cfg"
      then have "f clk (Suc i) (evict (clk i) s) = Some y"
        using body over by simp
      from IH [OF this] show False
        using stuck [OF h(2,3)] h(3) by (simp add: config_evict)
    qed
  qed
  then show False using st by simp
qed

text \<open>
  With \<open>maxItems = 0\<close> the guard \<open>this.config.maxItems && ...\<close> is false and nothing
  is ever evicted: after one \<open>set\<close> there is 1 entry, more than \<open>maxItems\<close>.
\<close>

theorem set_with_maxItems_0_keeps_entry:
  "map_option (\<lambda>st. (length (items st), maxItems (config st)))
     (Cachly_set example_codec ''a'' ''v'' no_options 0 tick (new_Cachly (default_config\<lparr>maxItems := 0\<rparr>)))
   = Some (1, 0)"
  by (simp add: eval_defs)

text \<open>
  Two inputs on which the eviction loop never ends, so that \<open>set\<close> does not return:
  the ttl policy over capacity with no entry that can expire, and the lru policy when the
  oldest entry has the empty key (\<open>if (oldestKey)\<close> is false for it).
\<close>

lemma items_evictTTL_none_expiring:
  "evictionPolicy (config s) = TTL \<Longrightarrow> \<forall>kv \<in> set (items s). expiresAt (snd kv) = None \<Longrightarrow>
   items (evict t s) = items s"
  by (simp add: evict_def evictTTL_def Let_def updateStats_def filter_id_conv)

lemma ttl_policy_set_never_returns:
  "Option.bind (Cachly_set example_codec ''a'' ''v'' no_options 0 tick
        (new_Cachly (default_config\<lparr>maxItems := 1, evictionPolicy := TTL\<rparr>)))
     (Cachly_set example_codec ''b'' ''v'' no_options 1 tick) = None"
proof -
  let ?cfg = "default_config\<lparr>maxItems := 1, evictionPolicy := TTL\<rparr> :: string CacheConfig"
  let ?st1 = "store_entry example_codec ''a'' ''v'' no_options 0 (new_Cachly ?cfg)"
  let ?s = "store_entry example_codec ''b'' ''v'' no_options 1 ?st1"
  have st1: "Cachly_set example_codec ''a'' ''v'' no_options 0 tick (new_Cachly ?cfg) = Some ?st1"
    by (simp add: eval_defs)
  have its: "map (\<lambda>kv. expiresAt (snd kv)) (items ?s) = [None, None]" and len: "length (items ?s) = 2"
    and cfg: "config ?s = ?cfg"
    by (simp_all add: eval_defs)
  have "evictIfNeeded tick 0 ?s = None"
  proof (rule evictIfNeeded_diverges [where its = "items ?s" and cfg = "?cfg"])
    fix s :: "string cache" and j
    assume h: "items s = items ?s" "config s = ?cfg"
    have "\<forall>kv \<in> set (items s). expiresAt (snd kv) \<in> set (map (\<lambda>kv. expiresAt (snd kv)) (items ?s))"
      using h(1) by simp
    then have "\<forall>kv \<in> set (items s). expiresAt (snd kv) = None"
      unfolding its by simp
    moreover have "evictionPolicy (config s) = TTL"
      using h(2) by (simp add: default_config_def)
    ultimately show "items (evict (tick j) s) = items ?s"
      using h(1) by (simp add: items_evictTTL_none_expiring)
  qed (use len cfg in \<open>simp_all add: default_config_def\<close>)
  then show ?thesis
    using st1 by (simp add: Cachly_set_def)
qed

lemma empty_key_set_never_returns:
  "Option.bind (Cachly_set example_codec [] ''v'' no_options 0 tick
        (new_Cachly (default_config\<lparr>maxItems := 1\<rparr>)))
     (Cachly_set example_codec ''a'' ''v'' no_options 1 tick) = None"
proof -
  let ?cfg = "default_config\<lparr>maxItems := 1\<rparr> :: string CacheConfig"
  let ?st1 = "store_entry example_codec [] ''v'' no_options 0 (new_Cachly ?cfg)"
  let ?s = "store_entry example_codec ''a'' ''v'' no_options 1 ?st1"
  have st1: "Cachly_set example_codec [] ''v'' no_options 0 tick (new_Cachly ?cfg) = Some ?st1"
    by (simp add: eval_defs)
  have its: "map (\<lambda>kv. (fst kv, lastAccessed (snd kv))) (items ?s) = [([], 0), (''a'', 1)]"
    and len: "length (items ?s) = 2" and cfg: "config ?s = ?cfg"
    by (simp_all add: eval_defs)
  have "evictIfNeeded tick 0 ?s = None"
  proof (rule evictIfNeeded_diverges [where its = "items ?s" and cfg = "?cfg"])
    fix s :: "string cache" and j
    assume h: "items s = items ?s" "config s = ?cfg"
    obtain x y where xy: "items ?s = [x, y]" "fst x = []" "lastAccessed (snd x) = 0"
      "fst y = ''a''" "lastAccessed (snd y) = 1"
      using its by (auto simp: map_eq_Cons_conv)
    have "fst (lru_scan (tick j) (items s)) = None \<or> fst (lru_scan (tick j) (items s)) = Some []"
      using h(1) xy by (simp add: lru_scan_def lru_step_def)
    then show "items (evict (tick j) s) = items ?s"
      using h by (auto simp: evict_def evictLRU_def default_config_def)
  qed (use len cfg in \<open>simp_all add: default_config_def\<close>)
  then show ?thesis
    using st1 by (simp add: Cachly_set_def)
qed

text \<open>
  Capacity 2 under the default lru policy: \<open>key1\<close> and \<open>key2\<close> are set at time 0, and
  \<open>key3\<close> in the same millisecond; the clock \<open>tick\<close> passes 0 at its second reading.
\<close>

theorem set_respects_capacity_witness:
  "\<exists>st2 st3.
     run 1 example_codec [Op_set ''key1'' ''value1'' no_options 0 tick,
                          Op_set ''key2'' ''value2'' no_options 0 tick]
        (new_Cachly (default_config\<lparr>maxItems := 2\<rparr>)) = Some st2
     \<and> map fst (items st2) = [''key1'', ''key2'']
     \<and> Cachly_set example_codec ''key3'' ''value3'' no_options 0 tick st2 = Some st3
     \<and> length (items st3) \<le> 2"
proof -
  let ?cfg = "default_config\<lparr>maxItems := 2\<rparr> :: string CacheConfig"
  have "\<exists>st2. run 1 example_codec [Op_set ''key1'' ''value1'' no_options 0 tick,
                          Op_set ''key2'' ''value2'' no_options 0 tick] (new_Cachly ?cfg) = Some st2
     \<and> map (\<lambda>kv. (fst kv, lastAccessed (snd kv))) (items st2) = [(''key1'', 0), (''key2'', 0)]
     \<and> config st2 = ?cfg"
    by (simp add: run_def eval_defs)
  then obtain st2 where st2: "run 1 example_codec [Op_set ''key1'' ''value1'' no_options 0 tick,
                          Op_set ''key2'' ''value2'' no_options 0 tick] (new_Cachly ?cfg) = Some st2"
    and its: "map (\<lambda>kv. (fst kv, lastAccessed (snd kv))) (items st2) = [(''key1'', 0), (''key2'', 0)]"
    and cfg: "config st2 = ?cfg"
    by (elim exE conjE) (rule that)
  obtain x y where xy: "items st2 = [x, y]" "fst x = ''key1''" "lastAccessed (snd x) = 0"
      "fst y = ''key2''" "lastAccessed (snd y) = 0"
    using its by (auto simp: map_eq_Cons_conv)
  have h0: "maxItems (config st2) \<noteq> 0"
    using cfg by (simp add: default_config_def)
  note cap = set_respects_capacity [OF h0, of example_codec "''key3''" "''value3''" no_options 0 tick]
  have pre: "(evictionPolicy (config st2) = LFU
          \<or> evictionPolicy (config st2) = LRU
             \<and> (\<exists>i0. \<forall>j\<ge>i0. 0 < tick j \<and> (\<forall>kv \<in> set (items st2). lastAccessed (snd kv) < tick j)))
         \<and> ''key3'' \<noteq> [] \<and> [] \<notin> fst ` set (items st2)"
    using cfg xy by (auto simp: default_config_def tick_def intro!: exI [of _ 1])
  from cap pre obtain st3 where st3: "Cachly_set example_codec ''key3'' ''value3'' no_options 0 tick st2 = Some st3"
    by blast
  with cap have len: "length (items st3) \<le> maxItems (config st3)" by blast
  have "config st3 = config st2"
    using evictIfNeeded_bound [of tick 0 _ st3] st3 by (simp add: Cachly_set_def config_store_entry)
  then have len2: "length (items st3) \<le> 2"
    using len cfg by (simp add: default_config_def)
  have keys: "map fst (items st2) = [''key1'', ''key2'']" using xy by simp
  show ?thesis
    by (intro exI [of _ st2] exI [of _ st3] conjI) (fact st2 keys st3 len2)+
qed

text \<open>The repository test: three sets within one millisecond, capacity 2: key1 is evicted.\<close>

lemma eviction_test_of_the_repository:
  "map_option (\<lambda>st. map fst (items st))
     (run 1 example_codec [Op_set ''key1'' ''value1'' no_options 0 tick,
                           Op_set ''key2'' ''value2'' no_options 0 tick,
                           Op_set ''key3'' ''value3'' no_options 0 tick]
        (new_Cachly (default_config\<lparr>maxItems := 2\<rparr>)))
   = Some [''key2'', ''key3'']"
  by (simp add: run_def eval_defs evict_def evictLRU_def lru_scan_def lru_step_def evict_key_def tick_def)

subsection \<open>Cascading delete\<close>

text \<open>
  How the views change under the steps of \<open>delete\<close> and \<open>set\<close>, that \<open>delete\<close> relates
  its states by \<open>shrinks\<close> and removes only keys reachable from its argument, and that it
  returns on every state with a ranking, which every state reached from a new cache has.
\<close>

lemma resident_iff: "k \<in> resident st \<longleftrightarrow> map_of (items st) k \<noteq> None"
  by (simp add: resident_def map_of_eq_None_iff)

lemma not_resident_views:
  "k \<notin> resident st \<Longrightarrow> dependsOn_of st k = {} \<and> dependents_of st k = {} \<and> tags_of st k = {}"
  by (simp add: resident_iff dependsOn_of_def dependents_of_def tags_of_def)

lemma entry_views:
  "map_of (items st) k = Some item \<Longrightarrow>
     k \<in> resident st \<and> dependsOn_of st k = set (dependsOn item)
     \<and> dependents_of st k = set (dependents item) \<and> tags_of st k = set (tags item)"
  by (simp add: resident_iff dependsOn_of_def dependents_of_def tags_of_def)

lemma set_set_delete: "set (set_delete x xs) = set xs - {x}"
  by (auto simp: set_delete_def)

lemma set_set_add: "set (set_add x xs) = insert x (set xs)"
  by (auto simp: set_add_def)

lemma map_of_remove_dependent:
  "map_of (items (remove_dependent key dep s)) k =
     (if k = dep then map_option (\<lambda>it. it\<lparr>dependents := set_delete key (dependents it)\<rparr>) (map_of (items s) k)
      else map_of (items s) k)"
  by (auto simp: remove_dependent_def update_conv' split: option.splits)

lemma views_remove_dependent:
  "resident (remove_dependent key dep s) = resident s"
  "dependsOn_of (remove_dependent key dep s) k = dependsOn_of s k"
  "tags_of (remove_dependent key dep s) k = tags_of s k"
  "dependents_of (remove_dependent key dep s) k = dependents_of s k - (if k = dep then {key} else {})"
  "tag_members (remove_dependent key dep s) t = tag_members s t"
  "config (remove_dependent key dep s) = config s"
  "groups (remove_dependent key dep s) = groups s"
proof -
  show "resident (remove_dependent key dep s) = resident s"
    by (auto simp: resident_iff map_of_remove_dependent split: if_splits)
  show "dependsOn_of (remove_dependent key dep s) k = dependsOn_of s k"
    "tags_of (remove_dependent key dep s) k = tags_of s k"
    "dependents_of (remove_dependent key dep s) k = dependents_of s k - (if k = dep then {key} else {})"
    by (auto simp: dependsOn_of_def tags_of_def dependents_of_def map_of_remove_dependent
        set_set_delete split: option.splits)
  show "tag_members (remove_dependent key dep s) t = tag_members s t"
    "config (remove_dependent key dep s) = config s"
    "groups (remove_dependent key dep s) = groups s"
    by (simp_all add: tag_members_def remove_dependent_def split: option.splits)
qed

lemma views_removeDependencies:
  "resident (removeDependencies key deps s) = resident s
   \<and> (\<forall>k. dependsOn_of (removeDependencies key deps s) k = dependsOn_of s k
          \<and> tags_of (removeDependencies key deps s) k = tags_of s k
          \<and> dependents_of (removeDependencies key deps s) k
               = dependents_of s k - (if k \<in> set deps then {key} else {}))
   \<and> (\<forall>t. tag_members (removeDependencies key deps s) t = tag_members s t)
   \<and> config (removeDependencies key deps s) = config s
   \<and> groups (removeDependencies key deps s) = groups s"
  unfolding removeDependencies_def
proof (induction deps arbitrary: s)
  case Nil
  show ?case by simp
next
  case (Cons d deps)
  show ?case
    using Cons.IH [of "remove_dependent key d s"]
    by (auto simp: views_remove_dependent)
qed

lemma views_remove_tag:
  "items (remove_tag key tag s) = items s"
  "tag_members (remove_tag key tag s) t = tag_members s t - (if t = tag then {key} else {})"
  "config (remove_tag key tag s) = config s"
  "groups (remove_tag key tag s) = groups s"
proof -
  show "items (remove_tag key tag s) = items s" "config (remove_tag key tag s) = config s"
    "groups (remove_tag key tag s) = groups s"
    by (simp_all add: remove_tag_def Let_def split: option.splits)
  show "tag_members (remove_tag key tag s) t = tag_members s t - (if t = tag then {key} else {})"
  proof (cases "map_of (cache_tags s) tag")
    case None
    then show ?thesis by (auto simp: remove_tag_def tag_members_def)
  next
    case (Some td)
    show ?thesis
    proof (cases "set_delete key (tag_keys td) = []")
      case True
      then have "set (tag_keys td) - {key} = {}"
        using set_set_delete [of key "tag_keys td"] by simp
      then show ?thesis
        using Some True
        by (auto simp: remove_tag_def tag_members_def Let_def delete_conv' split: option.splits)
    next
      case False
      then show ?thesis
        using Some
        by (auto simp: remove_tag_def tag_members_def Let_def update_conv' set_set_delete
            split: option.splits)
    qed
  qed
qed

lemma views_removeTags:
  "items (removeTags key tgs s) = items s
   \<and> (\<forall>t. tag_members (removeTags key tgs s) t = tag_members s t - (if t \<in> set tgs then {key} else {}))
   \<and> config (removeTags key tgs s) = config s
   \<and> groups (removeTags key tgs s) = groups s"
  unfolding removeTags_def
proof (induction tgs arbitrary: s)
  case Nil
  show ?case by simp
next
  case (Cons t tgs)
  show ?case
    using Cons.IH [of "remove_tag key t s"]
    by (auto simp: views_remove_tag)
qed

lemma views_items_eq:
  "items s' = items s \<Longrightarrow>
     resident s' = resident s \<and> dependsOn_of s' = dependsOn_of s
     \<and> dependents_of s' = dependents_of s \<and> tags_of s' = tags_of s"
  by (auto simp: resident_def dependsOn_of_def dependents_of_def tags_of_def fun_eq_iff)

lemma views_drop_key:
  assumes "items s' = AList.delete key (items s)"
  shows "resident s' = resident s - {key}"
    and "k \<noteq> key \<Longrightarrow> dependsOn_of s' k = dependsOn_of s k"
    and "k \<noteq> key \<Longrightarrow> dependents_of s' k = dependents_of s k"
    and "k \<noteq> key \<Longrightarrow> tags_of s' k = tags_of s k"
proof -
  show "resident s' = resident s - {key}"
    by (auto simp: resident_iff assms delete_conv' split: if_splits)
qed (simp_all add: dependsOn_of_def dependents_of_def tags_of_def assms)

lemma shrinks_refl: "shrinks s s"
  by (simp add: shrinks_def)

lemma shrinks_resident: "shrinks s s' \<Longrightarrow> k \<in> resident s' \<Longrightarrow> k \<in> resident s"
  unfolding shrinks_def by blast

lemma shrinks_same:
  "shrinks s s' \<Longrightarrow> k \<in> resident s' \<Longrightarrow> dependsOn_of s' k = dependsOn_of s k \<and> tags_of s' k = tags_of s k"
  unfolding shrinks_def by blast

lemma shrinks_dependents:
  "shrinks s s' \<Longrightarrow> a \<in> dependents_of s' k \<Longrightarrow> a \<in> dependents_of s k"
proof (cases "k \<in> resident s'")
  case True
  assume "shrinks s s'" "a \<in> dependents_of s' k"
  then show ?thesis using True unfolding shrinks_def by blast
next
  case False
  assume "a \<in> dependents_of s' k"
  then show ?thesis using not_resident_views [OF False] by simp
qed

lemma shrinks_lost:
  "shrinks s s' \<Longrightarrow> k \<in> resident s' \<Longrightarrow> a \<in> dependents_of s k \<Longrightarrow> a \<notin> dependents_of s' k \<Longrightarrow>
   a \<notin> resident s'"
  unfolding shrinks_def by blast

lemma shrinks_unlinked:
  "shrinks s s' \<Longrightarrow> x \<in> resident s \<Longrightarrow> x \<notin> resident s' \<Longrightarrow> b \<in> dependsOn_of s x \<Longrightarrow>
   x \<notin> dependents_of s' b"
proof (cases "b \<in> resident s'")
  case True
  assume "shrinks s s'" "x \<in> resident s" "x \<notin> resident s'" "b \<in> dependsOn_of s x"
  then show ?thesis using True unfolding shrinks_def by blast
next
  case False
  show ?thesis using not_resident_views [OF False] by simp
qed

lemma shrinks_cascade:
  "shrinks s s' \<Longrightarrow> x \<notin> resident s' \<Longrightarrow> a \<in> dependents_of s x \<Longrightarrow> a \<notin> resident s'"
proof (cases "x \<in> resident s")
  case True
  assume "shrinks s s'" "x \<notin> resident s'" "a \<in> dependents_of s x"
  then show ?thesis using True unfolding shrinks_def by blast
next
  case False
  assume "a \<in> dependents_of s x"
  then show ?thesis using not_resident_views [OF False] by simp
qed

lemma shrinks_untagged:
  "shrinks s s' \<Longrightarrow> x \<notin> resident s' \<Longrightarrow> t \<in> tags_of s x \<Longrightarrow> x \<notin> tag_members s' t"
proof (cases "x \<in> resident s")
  case True
  assume "shrinks s s'" "x \<notin> resident s'" "t \<in> tags_of s x"
  then show ?thesis using True unfolding shrinks_def by blast
next
  case False
  assume "t \<in> tags_of s x"
  then show ?thesis using not_resident_views [OF False] by simp
qed

lemma shrinks_tag_members: "shrinks s s' \<Longrightarrow> x \<in> tag_members s' t \<Longrightarrow> x \<in> tag_members s t"
  unfolding shrinks_def by blast

lemma shrinks_fixed:
  "shrinks s s' \<Longrightarrow> config s' = config s \<and> groups s' = groups s
     \<and> (distinct (map fst (items s)) \<longrightarrow> distinct (map fst (items s')))"
  unfolding shrinks_def by blast

lemma shrinksI:
  assumes "\<And>k. k \<in> resident s' \<Longrightarrow> k \<in> resident s"
    and "\<And>k. k \<in> resident s' \<Longrightarrow> dependsOn_of s' k = dependsOn_of s k \<and> tags_of s' k = tags_of s k"
    and "\<And>k a. a \<in> dependents_of s' k \<Longrightarrow> a \<in> dependents_of s k"
    and "\<And>k a. k \<in> resident s' \<Longrightarrow> a \<in> dependents_of s k \<Longrightarrow> a \<notin> dependents_of s' k \<Longrightarrow> a \<notin> resident s'"
    and "\<And>x b. x \<in> resident s \<Longrightarrow> x \<notin> resident s' \<Longrightarrow> b \<in> resident s' \<Longrightarrow> b \<in> dependsOn_of s x \<Longrightarrow>
           x \<notin> dependents_of s' b"
    and "\<And>x a. x \<in> resident s \<Longrightarrow> x \<notin> resident s' \<Longrightarrow> a \<in> dependents_of s x \<Longrightarrow> a \<notin> resident s'"
    and "\<And>x t. x \<in> resident s \<Longrightarrow> x \<notin> resident s' \<Longrightarrow> t \<in> tags_of s x \<Longrightarrow> x \<notin> tag_members s' t"
    and "\<And>x t. x \<in> tag_members s' t \<Longrightarrow> x \<in> tag_members s t"
    and "config s' = config s" and "groups s' = groups s"
    and "distinct (map fst (items s)) \<Longrightarrow> distinct (map fst (items s'))"
  shows "shrinks s s'"
  unfolding shrinks_def using assms by blast

lemma shrinks_trans:
  assumes a: "shrinks s s1" and b: "shrinks s1 s2"
  shows "shrinks s s2"
proof (rule shrinksI)
  show "k \<in> resident s" if "k \<in> resident s2" for k
    using that a b by (auto dest: shrinks_resident)
  show "dependsOn_of s2 k = dependsOn_of s k \<and> tags_of s2 k = tags_of s k" if "k \<in> resident s2" for k
    using shrinks_same [OF b that] shrinks_same [OF a shrinks_resident [OF b that]] by simp
  show "x \<in> dependents_of s k" if "x \<in> dependents_of s2 k" for k x
    using that a b by (auto dest: shrinks_dependents)
  show "x \<notin> resident s2" if "k \<in> resident s2" "x \<in> dependents_of s k" "x \<notin> dependents_of s2 k" for k x
  proof (cases "x \<in> dependents_of s1 k")
    case True
    then show ?thesis using shrinks_lost [OF b that(1) True that(3)] by simp
  next
    case False
    then have "x \<notin> resident s1"
      using shrinks_lost [OF a shrinks_resident [OF b that(1)] that(2)] by simp
    then show ?thesis using shrinks_resident [OF b] by blast
  qed
  show "x \<notin> dependents_of s2 c"
    if "x \<in> resident s" "x \<notin> resident s2" "c \<in> resident s2" "c \<in> dependsOn_of s x" for x c
  proof (cases "x \<in> resident s1")
    case True
    then have "c \<in> dependsOn_of s1 x" using shrinks_same [OF a True] that(4) by simp
    then show ?thesis using shrinks_unlinked [OF b True that(2)] by simp
  next
    case False
    then have "x \<notin> dependents_of s1 c" using shrinks_unlinked [OF a that(1) False that(4)] by simp
    then show ?thesis using shrinks_dependents [OF b] by blast
  qed
  show "c \<notin> resident s2" if "x \<in> resident s" "x \<notin> resident s2" "c \<in> dependents_of s x" for x c
  proof (cases "x \<in> resident s1")
    case False
    then have "c \<notin> resident s1" using shrinks_cascade [OF a False that(3)] by simp
    then show ?thesis using shrinks_resident [OF b] by blast
  next
    case True
    show ?thesis
    proof (cases "c \<in> dependents_of s1 x")
      case True
      then show ?thesis using shrinks_cascade [OF b that(2) True] by simp
    next
      case False
      then have "c \<notin> resident s1" using shrinks_lost [OF a \<open>x \<in> resident s1\<close> that(3) False] by simp
      then show ?thesis using shrinks_resident [OF b] by blast
    qed
  qed
  show "x \<notin> tag_members s2 t" if "x \<in> resident s" "x \<notin> resident s2" "t \<in> tags_of s x" for x t
  proof (cases "x \<in> resident s1")
    case False
    then have "x \<notin> tag_members s1 t" using shrinks_untagged [OF a False that(3)] by simp
    then show ?thesis using shrinks_tag_members [OF b] by blast
  next
    case True
    then have "t \<in> tags_of s1 x" using shrinks_same [OF a True] that(3) by simp
    then show ?thesis using shrinks_untagged [OF b that(2)] by simp
  qed
  show "x \<in> tag_members s t" if "x \<in> tag_members s2 t" for x t
    using that a b by (auto dest: shrinks_tag_members)
  show "config s2 = config s" "groups s2 = groups s"
    using shrinks_fixed [OF a] shrinks_fixed [OF b] by simp_all
  show "distinct (map fst (items s2))" if "distinct (map fst (items s))"
    using shrinks_fixed [OF a] shrinks_fixed [OF b] that by simp
qed

lemma edges_shrinks: "shrinks s s' \<Longrightarrow> dependency_edges s' \<subseteq> dependency_edges s"
  unfolding dependency_edges_def by (auto dest: shrinks_resident shrinks_dependents)

lemma reach_shrinks: "shrinks s s' \<Longrightarrow> (dependency_edges s')\<^sup>* `` K \<subseteq> (dependency_edges s)\<^sup>* `` K"
  using rtrancl_mono [OF edges_shrinks] by blast

lemma forEachM_delete_shrinks:
  assumes step: "\<And>k s s'. del k s = Some s' \<Longrightarrow>
       shrinks s s' \<and> k \<notin> resident s' \<and> resident s - resident s' \<subseteq> (dependency_edges s)\<^sup>* `` {k}"
    and run: "forEachM del ks s = Some s'"
  shows "shrinks s s' \<and> (\<forall>k \<in> set ks. k \<notin> resident s')
         \<and> resident s - resident s' \<subseteq> (dependency_edges s)\<^sup>* `` set ks"
  using run
proof (induction ks arbitrary: s)
  case Nil
  then show ?case by (simp add: shrinks_refl)
next
  case (Cons k ks)
  from Cons.prems obtain s1 where s1: "del k s = Some s1" and rest: "forEachM del ks s1 = Some s'"
    by (auto split: option.splits)
  note a = step [OF s1] and b = Cons.IH [OF rest]
  have sh: "shrinks s s'" using a b shrinks_trans by blast
  have gone: "\<forall>k' \<in> set (k # ks). k' \<notin> resident s'"
    using a b by (auto dest: shrinks_resident)
  have "x \<in> (dependency_edges s)\<^sup>* `` set (k # ks)" if "x \<in> resident s - resident s'" for x
  proof (cases "x \<in> resident s1")
    case False
    then have "x \<in> (dependency_edges s)\<^sup>* `` {k}" using a that by blast
    then show ?thesis by auto
  next
    case True
    then have "x \<in> (dependency_edges s1)\<^sup>* `` set ks" using b that by blast
    then have "x \<in> (dependency_edges s)\<^sup>* `` set ks"
      using reach_shrinks a by blast
    then show ?thesis by auto
  qed
  then show ?case using sh gone by blast
qed

lemma views_updateStats:
  "items (updateStats s) = items s" "cache_tags (updateStats s) = cache_tags s"
  "config (updateStats s) = config s" "groups (updateStats s) = groups s"
  by (simp_all add: updateStats_def)

lemma keys_remove_dependent: "map fst (items (remove_dependent key dep s)) = map fst (items s)"
  by (auto simp: remove_dependent_def intro: update_same_projection split: option.splits)

lemma keys_removeDependencies: "map fst (items (removeDependencies key deps s)) = map fst (items s)"
  unfolding removeDependencies_def
  by (induction deps arbitrary: s) (simp_all add: keys_remove_dependent)

lemma delete_shrinks:
  "Cachly_delete n key s = Some s' \<Longrightarrow>
     shrinks s s' \<and> key \<notin> resident s' \<and> resident s - resident s' \<subseteq> (dependency_edges s)\<^sup>* `` {key}"
proof (induction n arbitrary: key s s')
  case 0
  then show ?case by simp
next
  case (Suc n)
  show ?case
  proof (cases "map_of (items s) key")
    case None
    then have "s' = s" using Suc.prems by simp
    moreover have "key \<notin> resident s" using None by (simp add: resident_iff)
    ultimately show ?thesis by (simp add: shrinks_refl)
  next
    case (Some item)
    define s1 where "s1 = removeTags key (tags item) (removeDependencies key (dependsOn item) s)"
    note ev = entry_views [OF Some]
    note vd = views_removeDependencies [of key "dependsOn item" s]
    note vt = views_removeTags [of key "tags item" "removeDependencies key (dependsOn item) s"]
    have it1: "items s1 = items (removeDependencies key (dependsOn item) s)"
      using vt by (simp add: s1_def)
    note v1 = views_items_eq [OF it1]
    have r1: "resident s1 = resident s" using v1 vd by simp
    have d1: "dependsOn_of s1 k = dependsOn_of s k" "tags_of s1 k = tags_of s k"
      "dependents_of s1 k = dependents_of s k - (if k \<in> dependsOn_of s key then {key} else {})" for k
      using v1 vd ev by simp_all
    have t1: "tag_members s1 t = tag_members s t - (if t \<in> tags_of s key then {key} else {})" for t
      using vt vd ev by (simp add: s1_def)
    have c1: "config s1 = config s" "groups s1 = groups s"
      using vt vd by (simp_all add: s1_def)
    have dist1: "map fst (items s1) = map fst (items s)"
      using it1 by (simp add: keys_removeDependencies)
    from Suc.prems Some obtain s2 where s2: "invalidateDependents (Cachly_delete n) key s1 = Some s2"
      and s': "s' = updateStats (s2\<lparr>items := AList.delete key (items s2)\<rparr>)"
      by (auto simp: s1_def split: option.splits)
    have "key \<in> resident s1" using ev r1 by simp
    then obtain item1 where item1: "map_of (items s1) key = Some item1"
      unfolding resident_iff by blast
    have loop: "forEachM (Cachly_delete n) (dependents item1) s1 = Some s2"
      using s2 item1 by (simp add: invalidateDependents_def)
    have snap: "set (dependents item1) = dependents_of s1 key"
      using entry_views [OF item1] by simp
    from forEachM_delete_shrinks [of "Cachly_delete n", OF Suc.IH loop]
    have sh12: "shrinks s1 s2" and gone: "\<forall>d \<in> dependents_of s1 key. d \<notin> resident s2"
      and fr: "resident s1 - resident s2 \<subseteq> (dependency_edges s1)\<^sup>* `` dependents_of s1 key"
      using snap by simp_all
    have its': "items s' = AList.delete key (items s2)"
      by (simp add: s' views_updateStats)
    note v3 = views_drop_key [OF its']
    have t3: "tag_members s' t = tag_members s2 t" for t
      by (simp add: s' tag_members_def views_updateStats)
    have c3: "config s' = config s2" "groups s' = groups s2"
      by (simp_all add: s' views_updateStats)
    have key': "key \<notin> resident s'" using v3(1) by simp
    have sub: "k \<in> resident s2" "k \<noteq> key" if "k \<in> resident s'" for k
      using that v3(1) by auto
    have sh: "shrinks s s'"
    proof (rule shrinksI)
      show "k \<in> resident s" if "k \<in> resident s'" for k
        using sub [OF that] shrinks_resident [OF sh12] r1 by auto
      show "dependsOn_of s' k = dependsOn_of s k \<and> tags_of s' k = tags_of s k" if "k \<in> resident s'" for k
        using sub [OF that] shrinks_same [OF sh12, of k] v3(2,4) [of k] d1(1,2) [of k] by simp
      show "a \<in> dependents_of s k" if "a \<in> dependents_of s' k" for k a
      proof (cases "k = key")
        case True
        then show ?thesis using that key' not_resident_views [of key s'] by simp
      next
        case False
        then have "a \<in> dependents_of s1 k" using that v3(3) shrinks_dependents [OF sh12] by simp
        then show ?thesis using d1(3) [of k] by auto
      qed
      show "a \<notin> resident s'" if "k \<in> resident s'" "a \<in> dependents_of s k" "a \<notin> dependents_of s' k" for k a
      proof (cases "a = key")
        case True
        then show ?thesis using key' by simp
      next
        case False
        then have "a \<in> dependents_of s1 k" using that(2) d1(3) [of k] by auto
        moreover have "a \<notin> dependents_of s2 k" using that(3) v3(3) sub [OF that(1)] by simp
        ultimately have "a \<notin> resident s2" using shrinks_lost [OF sh12] sub [OF that(1)] by blast
        then show ?thesis using v3(1) by simp
      qed
      show "x \<notin> dependents_of s' b"
        if "x \<in> resident s" "x \<notin> resident s'" "b \<in> resident s'" "b \<in> dependsOn_of s x" for x b
      proof (cases "x \<in> resident s2")
        case False
        then have "x \<notin> dependents_of s2 b"
          using shrinks_unlinked [OF sh12, of x b] that(1,4) r1 d1(1) by simp
        then show ?thesis using v3(3) sub [OF that(3)] by simp
      next
        case True
        then have "x = key" using that(2) v3(1) by simp
        then have "key \<notin> dependents_of s1 b" using that(4) d1(3) [of b] by simp
        then have "key \<notin> dependents_of s2 b" using shrinks_dependents [OF sh12] by blast
        then show ?thesis using v3(3) sub [OF that(3)] \<open>x = key\<close> by simp
      qed
      show "a \<notin> resident s'" if "x \<in> resident s" "x \<notin> resident s'" "a \<in> dependents_of s x" for x a
      proof (cases "a = key")
        case True
        then show ?thesis using key' by simp
      next
        case False
        then have a1: "a \<in> dependents_of s1 x" using that(3) d1(3) [of x] by auto
        have "a \<notin> resident s2"
        proof (cases "x \<in> resident s2")
          case False
          then show ?thesis using shrinks_cascade [OF sh12 False a1] by simp
        next
          case True
          then have "x = key" using that(2) v3(1) by simp
          then show ?thesis using a1 gone by simp
        qed
        then show ?thesis using v3(1) by simp
      qed
      show "x \<notin> tag_members s' t" if "x \<in> resident s" "x \<notin> resident s'" "t \<in> tags_of s x" for x t
      proof (cases "x \<in> resident s2")
        case False
        then show ?thesis using shrinks_untagged [OF sh12 False, of t] that(3) d1(2) t3 by simp
      next
        case True
        then have "x = key" using that(2) v3(1) by simp
        then have "key \<notin> tag_members s1 t" using that(3) t1 [of t] by simp
        then have "key \<notin> tag_members s2 t" using shrinks_tag_members [OF sh12] by blast
        then show ?thesis using t3 \<open>x = key\<close> by simp
      qed
      show "x \<in> tag_members s t" if "x \<in> tag_members s' t" for x t
        using that t3 shrinks_tag_members [OF sh12, of x t] t1 [of t] by auto
      show "config s' = config s" "groups s' = groups s"
        using c3 c1 shrinks_fixed [OF sh12] by simp_all
      show "distinct (map fst (items s'))" if "distinct (map fst (items s))"
        using that shrinks_fixed [OF sh12] dist1 its' by (simp add: distinct_delete)
    qed
    have "x \<in> (dependency_edges s)\<^sup>* `` {key}" if "x \<in> resident s - resident s'" for x
    proof (cases "x = key")
      case True
      then show ?thesis by simp
    next
      case False
      then have "x \<in> resident s1 - resident s2" using that r1 v3(1) by simp
      then obtain d where d: "d \<in> dependents_of s1 key" "(d, x) \<in> (dependency_edges s1)\<^sup>*"
        using fr by blast
      have "dependency_edges s1 \<subseteq> dependency_edges s"
        unfolding dependency_edges_def using r1 d1(3) by auto
      then have "(d, x) \<in> (dependency_edges s)\<^sup>*" using d(2) rtrancl_mono by blast
      moreover have "(key, d) \<in> dependency_edges s"
        using d(1) d1(3) [of key] ev by (auto simp: dependency_edges_def)
      ultimately show ?thesis by auto
    qed
    then show ?thesis using sh key' by blast
  qed
qed

lemma forEachM_mono:
  assumes "\<And>k s s'. f k s = Some s' \<Longrightarrow> g k s = Some s'" and "forEachM f ks s = Some s'"
  shows "forEachM g ks s = Some s'"
  using assms(2)
proof (induction ks arbitrary: s)
  case Nil
  then show ?case by simp
next
  case (Cons k ks)
  then show ?case by (auto simp: assms(1) split: option.splits)
qed

lemma delete_fuel_mono:
  "Cachly_delete n key s = Some s' \<Longrightarrow> Cachly_delete (n + m) key s = Some s'"
proof (induction n arbitrary: key s s')
  case 0
  then show ?case by simp
next
  case (Suc n)
  show ?case
  proof (cases "map_of (items s) key")
    case None
    then show ?thesis using Suc.prems by simp
  next
    case (Some item)
    let ?s1 = "removeTags key (tags item) (removeDependencies key (dependsOn item) s)"
    from Suc.prems Some obtain s2 where s2: "invalidateDependents (Cachly_delete n) key ?s1 = Some s2"
      and s': "s' = updateStats (s2\<lparr>items := AList.delete key (items s2)\<rparr>)"
      by (auto split: option.splits)
    have "invalidateDependents (Cachly_delete (n + m)) key ?s1 = Some s2"
      using s2 forEachM_mono [of "Cachly_delete n" "Cachly_delete (n + m)", OF Suc.IH]
      by (auto simp: invalidateDependents_def split: option.splits)
    then show ?thesis using Some s' by simp
  qed
qed

lemma ranked_sub:
  assumes "ranked r s" and "\<And>k. k \<in> resident s' \<Longrightarrow> k \<in> resident s"
    and "\<And>k. k \<in> resident s' \<Longrightarrow> dependsOn_of s' k = dependsOn_of s k"
    and "\<And>k a. a \<in> dependents_of s' k \<Longrightarrow> a \<in> dependents_of s k"
  shows "ranked r s'"
  unfolding ranked_def
proof (intro ballI impI)
  fix b a assume h: "b \<in> resident s'" "a \<in> dependents_of s' b" "a \<in> resident s'"
  then have "b \<in> resident s" "a \<in> dependents_of s b" "a \<in> resident s"
    using assms(2,4) by blast+
  then have "(a = b \<and> b \<in> dependsOn_of s b) \<or> r b < r a"
    using assms(1) unfolding ranked_def by blast
  then show "(a = b \<and> b \<in> dependsOn_of s' b) \<or> r b < r a"
    using assms(3) [OF h(1)] by simp
qed

lemma ranked_shrinks:
  assumes "ranked r s" and "shrinks s s'"
  shows "ranked r s'"
proof (rule ranked_sub [OF assms(1)])
  fix k assume "k \<in> resident s'"
  then show "k \<in> resident s" "dependsOn_of s' k = dependsOn_of s k"
    using shrinks_resident [OF assms(2)] shrinks_same [OF assms(2)] by blast+
next
  fix k a assume a: "a \<in> dependents_of s' k"
  then have "k \<in> resident s'" using not_resident_views [of k s'] by auto
  then show "a \<in> dependents_of s k" using shrinks_dependents [OF assms(2)] a by blast
qed

lemma forEachM_terminates:
  assumes step: "\<And>k s. k \<in> set ks \<Longrightarrow> P s \<Longrightarrow> \<exists>s'. del k s = Some s' \<and> P s'" and "P s"
  shows "\<exists>s'. forEachM del ks s = Some s'"
  using assms
proof (induction ks arbitrary: s)
  case Nil
  then show ?case by simp
next
  case (Cons k ks)
  from Cons.prems(1) [of k s] Cons.prems(2) obtain s1 where s1: "del k s = Some s1" "P s1"
    by auto
  have "\<exists>s'. forEachM del ks s1 = Some s'"
    by (rule Cons.IH) (use Cons.prems(1) s1(2) in auto)
  then show ?case using s1(1) by simp
qed

lemma delete_terminates:
  fixes s :: "'v cache"
  assumes "ranked r s" and "\<forall>k \<in> resident s. r k < M" and "key \<in> resident s \<longrightarrow> M - r key \<le> n"
  shows "\<exists>s'. Cachly_delete (Suc n) key s = Some s'"
  using assms
proof (induction n arbitrary: key s)
  case 0
  then have "key \<notin> resident s" by force
  then show ?case by (simp add: resident_iff)
next
  case (Suc n)
  show ?case
  proof (cases "map_of (items s) key")
    case None
    then show ?thesis by simp
  next
    case (Some item)
    define s1 where "s1 = removeTags key (tags item) (removeDependencies key (dependsOn item) s)"
    note ev = entry_views [OF Some]
    note vd = views_removeDependencies [of key "dependsOn item" s]
    note vt = views_removeTags [of key "tags item" "removeDependencies key (dependsOn item) s"]
    have it1: "items s1 = items (removeDependencies key (dependsOn item) s)"
      using vt by (simp add: s1_def)
    note v1 = views_items_eq [OF it1]
    have r1: "resident s1 = resident s" using v1 vd by simp
    have d1: "dependsOn_of s1 k = dependsOn_of s k"
      "dependents_of s1 k = dependents_of s k - (if k \<in> dependsOn_of s key then {key} else {})" for k
      using v1 vd ev by simp_all
    have rk1: "ranked r s1"
      by (rule ranked_sub [OF Suc.prems(1)]) (auto simp: r1 d1)
    have "key \<in> resident s1" using ev r1 by simp
    then obtain item1 where item1: "map_of (items s1) key = Some item1"
      unfolding resident_iff by blast
    have snap: "set (dependents item1) = dependents_of s1 key"
      using entry_views [OF item1] by simp
    have rank: "d \<in> resident s \<longrightarrow> r key < r d" if "d \<in> set (dependents item1)" for d
    proof
      assume dr: "d \<in> resident s"
      have dd: "d \<in> dependents_of s key" using that snap d1(2) [of key] by auto
      have "(d = key \<and> key \<in> dependsOn_of s key) \<or> r key < r d"
        using Suc.prems(1) ev dd dr unfolding ranked_def by blast
      moreover have "\<not> (d = key \<and> key \<in> dependsOn_of s key)"
        using that snap d1(2) [of key] by auto
      ultimately show "r key < r d" by simp
    qed
    let ?P = "\<lambda>t :: 'v cache. ranked r t \<and> (\<forall>k \<in> resident t. k \<in> resident s)"
    have "\<exists>s2. forEachM (Cachly_delete (Suc n)) (dependents item1) s1 = Some s2"
    proof (rule forEachM_terminates [where P = ?P])
      show "?P s1" using rk1 r1 by simp
      fix d t assume d: "d \<in> set (dependents item1)" and P: "?P t"
      have "\<exists>t'. Cachly_delete (Suc n) d t = Some t'"
      proof (rule Suc.IH)
        show "ranked r t" using P by simp
        show "\<forall>k \<in> resident t. r k < M" using P Suc.prems(2) by blast
        show "d \<in> resident t \<longrightarrow> M - r d \<le> n"
        proof
          assume "d \<in> resident t"
          then have "r key < r d" using rank [OF d] P by blast
          moreover have "M - r key \<le> Suc n" using Suc.prems(3) ev by simp
          ultimately show "M - r d \<le> n" by simp
        qed
      qed
      then obtain t' where t': "Cachly_delete (Suc n) d t = Some t'" by blast
      have "shrinks t t'" using delete_shrinks [OF t'] by simp
      then have "?P t'" using P ranked_shrinks shrinks_resident by blast
      then show "\<exists>t'. Cachly_delete (Suc n) d t = Some t' \<and> ?P t'" using t' by blast
    qed
    then show ?thesis
      using Some item1 by (auto simp: invalidateDependents_def s1_def)
  qed
qed

lemma finite_resident: "finite (resident s)"
  by (simp add: resident_def)

lemma ranked_delete_returns:
  assumes "ranked r s"
  shows "\<exists>n s'. \<forall>m\<ge>n. Cachly_delete m key s = Some s'"
proof -
  define M where "M = Suc (Max (insert 0 (r ` resident s)))"
  have bound: "\<forall>k \<in> resident s. r k < M"
    using finite_resident [of s] by (auto simp: M_def less_Suc_eq_le)
  have "key \<in> resident s \<longrightarrow> M - r key \<le> M" by simp
  from delete_terminates [OF assms bound this] obtain s' where s': "Cachly_delete (Suc M) key s = Some s'"
    by blast
  have "Cachly_delete m key s = Some s'" if "Suc M \<le> m" for m
    using delete_fuel_mono [OF s', of "m - Suc M"] that by simp
  then show ?thesis by blast
qed

lemma map_of_add_dependent:
  "map_of (items (add_dependent key dep s)) k =
     (if k = dep then map_option (\<lambda>it. it\<lparr>dependents := set_add key (dependents it)\<rparr>) (map_of (items s) k)
      else map_of (items s) k)"
  by (auto simp: add_dependent_def update_conv' split: option.splits)

lemma views_add_dependent:
  "resident (add_dependent key dep s) = resident s"
  "dependsOn_of (add_dependent key dep s) k = dependsOn_of s k"
  "tags_of (add_dependent key dep s) k = tags_of s k"
  "dependents_of (add_dependent key dep s) k
     = dependents_of s k \<union> (if k = dep \<and> dep \<in> resident s then {key} else {})"
  "tag_members (add_dependent key dep s) t = tag_members s t"
  "groups (add_dependent key dep s) = groups s"
proof -
  show "resident (add_dependent key dep s) = resident s"
    by (auto simp: resident_iff map_of_add_dependent split: if_splits)
  show "dependsOn_of (add_dependent key dep s) k = dependsOn_of s k"
    "tags_of (add_dependent key dep s) k = tags_of s k"
    by (auto simp: dependsOn_of_def tags_of_def map_of_add_dependent split: option.splits)
  show "dependents_of (add_dependent key dep s) k
     = dependents_of s k \<union> (if k = dep \<and> dep \<in> resident s then {key} else {})"
    by (auto simp: dependents_of_def resident_iff map_of_add_dependent set_set_add split: option.splits)
  show "tag_members (add_dependent key dep s) t = tag_members s t"
    "groups (add_dependent key dep s) = groups s"
    by (simp_all add: tag_members_def add_dependent_def split: option.splits)
qed

lemma views_updateDependencies:
  "resident (updateDependencies key deps s) = resident s
   \<and> (\<forall>k. dependsOn_of (updateDependencies key deps s) k = dependsOn_of s k
          \<and> tags_of (updateDependencies key deps s) k = tags_of s k
          \<and> dependents_of (updateDependencies key deps s) k
               = dependents_of s k \<union> (if k \<in> set deps \<and> k \<in> resident s then {key} else {}))
   \<and> (\<forall>t. tag_members (updateDependencies key deps s) t = tag_members s t)
   \<and> groups (updateDependencies key deps s) = groups s"
  unfolding updateDependencies_def
proof (induction deps arbitrary: s)
  case Nil
  show ?case by simp
next
  case (Cons d deps)
  show ?case
    using Cons.IH [of "add_dependent key d s"]
    by (auto simp: views_add_dependent)
qed

lemma views_add_tag:
  "tag_members (add_tag now key tag s) t = tag_members s t \<union> (if t = tag then {key} else {})"
  "groups (add_tag now key tag s) = groups s"
  by (auto simp: add_tag_def tag_members_def Let_def update_conv' set_set_add split: option.splits)

lemma views_updateTags:
  "(\<forall>t. tag_members (updateTags now key tgs s) t = tag_members s t \<union> (if t \<in> set tgs then {key} else {}))
   \<and> groups (updateTags now key tgs s) = groups s"
  unfolding updateTags_def
proof (induction tgs arbitrary: s)
  case Nil
  show ?case by simp
next
  case (Cons t tgs)
  show ?case
    using Cons.IH [of "add_tag now key t s"]
    by (auto simp: views_add_tag)
qed

lemma views_put:
  assumes "items s' = AList.update key item (items s)"
  shows "resident s' = insert key (resident s)"
    and "dependsOn_of s' k = (if k = key then set (dependsOn item) else dependsOn_of s k)"
    and "dependents_of s' k = (if k = key then set (dependents item) else dependents_of s k)"
    and "tags_of s' k = (if k = key then set (tags item) else tags_of s k)"
proof -
  show "resident s' = insert key (resident s)"
    by (auto simp: resident_iff assms update_conv' split: if_splits)
qed (simp_all add: dependsOn_of_def dependents_of_def tags_of_def assms update_conv')

lemma views_store_entry:
  fixes s :: "'v cache" and cdc key v options now
  defines "s' \<equiv> store_entry cdc key v options now s"
  defines "D \<equiv> option_list (opt_dependsOn options)"
  defines "T \<equiv> option_list (opt_tags options)"
  shows "resident s' = insert key (resident s)"
    and "dependsOn_of s' k = (if k = key then D else dependsOn_of s k)"
    and "tags_of s' k = (if k = key then T else tags_of s k)"
    and "dependents_of s' k =
           (if k = key then (if key \<in> D then {key} else {})
            else dependents_of s k \<union> (if k \<in> D \<and> k \<in> resident s then {key} else {}))"
    and "tag_members s' t = tag_members s t \<union> (if t \<in> T then {key} else {})"
    and "groups s' = groups s"
    and "distinct (map fst (items s)) \<Longrightarrow> distinct (map fst (items s'))"
proof -
  define item where "item = new_item cdc v options now (config s)"
  define s1 where "s1 = s\<lparr>items := AList.update key item (items s)\<rparr>"
  define s2 where "s2 = updateDependencies key (dependsOn item) s1"
  define s3 where "s3 = updateTags now key (tags item) s2"
  have s': "s' = updateStats s3"
    by (simp add: s'_def store_entry_def Let_def item_def s1_def s2_def s3_def)
  have it: "set (dependsOn item) = D" "set (tags item) = T" "dependents item = []"
    by (simp_all add: item_def new_item_def Let_def set_new_Set D_def T_def option_list_def
        split: option.splits)
  have "items s1 = AList.update key item (items s)" by (simp add: s1_def)
  note v1 = views_put [OF this]
  note v2 = views_updateDependencies [of key "dependsOn item" s1, folded s2_def]
  note v3 = views_updateTags [of now key "tags item" s2, folded s3_def]
  have i3: "items s' = items s3" "items s3 = items s2"
    by (simp_all add: s' updateStats_def s3_def items_updateTags)
  note e3 = views_items_eq [OF i3(1)] views_items_eq [OF i3(2)]
  show "resident s' = insert key (resident s)" using e3 v2 v1 by simp
  show "dependsOn_of s' k = (if k = key then D else dependsOn_of s k)"
    using e3 v2 v1 it by simp
  show "tags_of s' k = (if k = key then T else tags_of s k)"
    using e3 v2 v1 it by simp
  show "dependents_of s' k =
           (if k = key then (if key \<in> D then {key} else {})
            else dependents_of s k \<union> (if k \<in> D \<and> k \<in> resident s then {key} else {}))"
    using e3 v2 v1 it by auto
  have "tag_members s1 t = tag_members s t" by (simp add: tag_members_def s1_def)
  moreover have "tag_members s' t = tag_members s3 t" by (simp add: tag_members_def s' updateStats_def)
  ultimately show "tag_members s' t = tag_members s t \<union> (if t \<in> T then {key} else {})"
    using v3 v2 it by simp
  have "groups s1 = groups s" by (simp add: s1_def)
  moreover have "groups s' = groups s3" by (simp add: s' updateStats_def)
  ultimately show "groups s' = groups s" using v3 v2 by simp
  have "map fst (items s') = map fst (items s1)"
    using i3 updateDependencies_projection [of fst key "dependsOn item" s1] by (simp add: s2_def)
  then show "distinct (map fst (items s'))" if "distinct (map fst (items s))"
    using that by (simp add: s1_def distinct_update)
qed

lemma ranked_entries:
  assumes "ranked r s" and "\<And>k item. map_of (items s') k = Some item \<Longrightarrow> map_of (items s) k = Some item"
  shows "ranked r s'"
proof (rule ranked_sub [OF assms(1)])
  fix k assume "k \<in> resident s'"
  then obtain item where "map_of (items s') k = Some item" unfolding resident_iff by blast
  then show "k \<in> resident s" "dependsOn_of s' k = dependsOn_of s k"
    using assms(2) entry_views by (metis)+
next
  fix k a assume a: "a \<in> dependents_of s' k"
  then obtain item where "map_of (items s') k = Some item"
    by (auto simp: dependents_of_def split: option.splits)
  then show "a \<in> dependents_of s k"
    using a assms(2) [of k item] by (simp add: dependents_of_def)
qed

lemma graded_shrinks: "graded s \<Longrightarrow> shrinks s s' \<Longrightarrow> graded s'"
  unfolding graded_def using ranked_shrinks shrinks_fixed by blast

lemma graded_items_eq: "graded s \<Longrightarrow> items s' = items s \<Longrightarrow> graded s'"
  unfolding graded_def using ranked_entries [of _ s s'] by auto

lemma graded_evict_key: "graded s \<Longrightarrow> graded (evict_key k s)"
  unfolding graded_def
proof (elim conjE exE, intro conjI exI)
  fix r assume "distinct (map fst (items s))" "ranked r s"
  then show "distinct (map fst (items (evict_key k s)))"
    by (simp add: evict_key_def updateStats_def distinct_delete)
  show "ranked r (evict_key k s)"
    by (rule ranked_entries [OF \<open>ranked r s\<close>])
      (simp add: evict_key_def updateStats_def delete_conv' split: if_splits)
qed

lemma map_of_filter_Some:
  "distinct (map fst al) \<Longrightarrow> map_of (filter P al) k = Some v \<Longrightarrow> map_of al k = Some v"
  by (metis filter_is_subset map_of_SomeD map_of_is_SomeI subsetD)

lemma graded_evictTTL: "graded s \<Longrightarrow> graded (evictTTL now s)"
  unfolding graded_def
proof (elim conjE exE, intro conjI exI)
  fix r assume d: "distinct (map fst (items s))" and r: "ranked r s"
  show "distinct (map fst (items (evictTTL now s)))"
    using d by (simp add: evictTTL_def Let_def updateStats_def distinct_map_filter)
  have "\<exists>P. items (evictTTL now s) = filter P (items s)"
    unfolding evictTTL_def Let_def updateStats_def by (intro exI) simp
  then obtain P where P: "items (evictTTL now s) = filter P (items s)" by blast
  show "ranked r (evictTTL now s)"
  proof (rule ranked_entries [OF r])
    fix k item assume "map_of (items (evictTTL now s)) k = Some item"
    then show "map_of (items s) k = Some item"
      unfolding P by (rule map_of_filter_Some [OF d])
  qed
qed

lemma graded_evict: "graded s \<Longrightarrow> graded (evict now s)"
  by (auto simp: evict_def evictLRU_def evictLFU_def graded_evict_key graded_evictTTL
      split: policy.splits option.splits)

lemma graded_evictIfNeeded:
  assumes "evictIfNeeded clk i s = Some s'"
  shows "graded s \<longrightarrow> graded s'"
proof (rule evictIfNeeded.raw_induct [where P = "\<lambda>clk i s s'. graded s \<longrightarrow> graded s'", OF _ assms])
  fix f clk i and s s' :: "'v cache"
  assume IH: "\<And>clk i s s'. f clk i s = Some s' \<Longrightarrow> graded s \<longrightarrow> graded s'"
    and body: "(if maxItems (config s) \<noteq> 0 \<and> length (items s) > maxItems (config s)
                then f clk (Suc i) (evict (clk i) s) else Some s) = Some s'"
  show "graded s \<longrightarrow> graded s'"
  proof (cases "maxItems (config s) \<noteq> 0 \<and> length (items s) > maxItems (config s)")
    case True
    then have "f clk (Suc i) (evict (clk i) s) = Some s'" using body by simp
    from IH [OF this] show ?thesis using graded_evict by blast
  next
    case False
    with body have "s' = s" by (auto split: if_splits)
    then show ?thesis by simp
  qed
qed

lemma graded_store_entry:
  fixes s :: "'v cache"
  assumes "graded s"
  shows "graded (store_entry cdc key v options now s)"
proof -
  let ?s' = "store_entry cdc key v options now s"
  from assms obtain r where d: "distinct (map fst (items s))" and r: "ranked r s"
    unfolding graded_def by blast
  note v = views_store_entry [where s = s and cdc = cdc and key = key and v = v and options = options and now = now]
  define D where "D = option_list (opt_dependsOn options)"
  have res: "resident ?s' = insert key (resident s)" using v(1) .
  have own: "dependents_of ?s' key = (if key \<in> D then {key} else {})" "dependsOn_of ?s' key = D"
    using v(4) [of key] v(2) [of key] by (simp_all add: D_def)
  have other: "dependents_of ?s' b \<subseteq> insert key (dependents_of s b)"
    "dependsOn_of ?s' b = dependsOn_of s b" if "b \<noteq> key" for b
    using v(4) [of b] v(2) [of b] that by (simp_all add: D_def subset_insertI)
  define top where "top = Suc (Max (insert 0 (r ` resident s)))"
  have top: "r k < top" if "k \<in> resident s" for k
    using that finite_resident [of s] by (auto simp: top_def less_Suc_eq_le)
  define r' where "r' = r(key := top)"
  have "ranked r' ?s'"
    unfolding ranked_def
  proof (intro ballI impI)
    fix b a assume b: "b \<in> resident ?s'" and a: "a \<in> dependents_of ?s' b" and ar: "a \<in> resident ?s'"
    show "(a = b \<and> b \<in> dependsOn_of ?s' b) \<or> r' b < r' a"
    proof (cases "b = key")
      case True
      have "a = key \<and> key \<in> D"
        using a own(1) unfolding True by (cases "key \<in> D") simp_all
      then show ?thesis using own(2) True by simp
    next
      case bk: False
      then have br: "b \<in> resident s" using b res by simp
      show ?thesis
      proof (cases "a = key")
        case True
        then show ?thesis using bk top [OF br] by (simp add: r'_def)
      next
        case False
        have "a \<in> resident s" using ar res False by simp
        moreover have "a \<in> dependents_of s b" using a other(1) [OF bk] False by blast
        ultimately have "(a = b \<and> b \<in> dependsOn_of s b) \<or> r b < r a"
          using r br unfolding ranked_def by blast
        then show ?thesis using False bk other(2) [OF bk] by (simp add: r'_def)
      qed
    qed
  qed
  then show ?thesis unfolding graded_def using v(7) [OF d] by blast
qed

lemma graded_set:
  assumes "Cachly_set cdc key v options now clk s = Some s'" and "graded s"
  shows "graded s'"
proof -
  have "graded (store_entry cdc key v options now s)" by (rule graded_store_entry [OF assms(2)])
  then show ?thesis using graded_evictIfNeeded [OF assms(1) [unfolded Cachly_set_def]] by simp
qed

lemma graded_delete:
  assumes "Cachly_delete n key s = Some s'" and "graded s"
  shows "graded s'"
  using delete_shrinks [OF assms(1)] graded_shrinks [OF assms(2)] by simp

lemma graded_touch:
  assumes "graded s" and "map_of (items s) key = Some item"
  shows "graded (touch key item now s)"
proof -
  let ?s' = "touch key item now s"
  from assms obtain r where d: "distinct (map fst (items s))" and r: "ranked r s"
    unfolding graded_def by blast
  have "items ?s' = AList.update key (item\<lparr>accessCount := accessCount item + 1, lastAccessed := now\<rparr>) (items s)"
    by (simp add: touch_def)
  note v = views_put [OF this]
  note e = entry_views [OF assms(2)]
  have "ranked r ?s'"
    by (rule ranked_sub [OF r]) (use v e in \<open>auto split: if_splits\<close>)
  moreover have "distinct (map fst (items ?s'))"
    using d by (simp add: touch_def distinct_update)
  ultimately show ?thesis unfolding graded_def by blast
qed

lemma graded_get:
  assumes "Cachly_get n cdc key now s = Some (res, s')" and "graded s"
  shows "graded s'"
proof (cases "map_of (items s) key")
  case None
  then have "items s' = items s" using assms(1) by (auto simp: Cachly_get_def count_miss_def)
  then show ?thesis using assms(2) graded_items_eq by blast
next
  case (Some item)
  show ?thesis
  proof (cases "isExpired now item")
    case True
    then obtain s1 where s1: "Cachly_delete n key s = Some s1" and s': "s' = count_miss s1"
      using assms(1) Some by (auto simp: Cachly_get_def split: option.splits)
    have "graded s1" using graded_delete [OF s1 assms(2)] .
    moreover have "items s' = items s1" by (simp add: s' count_miss_def)
    ultimately show ?thesis using graded_items_eq by blast
  next
    case False
    then have "s' = count_hit (touch key item now s)"
      using assms(1) Some
      by (auto simp: Cachly_get_def Let_def split: option.splits if_splits stored.splits)
    then have "items s' = items (touch key item now s)" by (simp add: count_hit_def)
    then show ?thesis using graded_touch [OF assms(2) Some] graded_items_eq by blast
  qed
qed

lemma graded_empty: "items s = [] \<Longrightarrow> graded s"
  by (simp add: graded_def ranked_def resident_def)

lemma forEachM_delete_graded:
  assumes "forEachM (Cachly_delete n) ks s = Some s'" and "graded s"
  shows "graded s'"
  using forEachM_delete_shrinks [of "Cachly_delete n", OF delete_shrinks assms(1)]
    graded_shrinks [OF assms(2)] by simp

lemma graded_apply_op:
  assumes "apply_op fuel cdc op s = Some s'" and "graded s"
  shows "graded s'"
proof (cases op)
  case (Op_set key v options now clk)
  then show ?thesis using assms graded_set by simp
next
  case (Op_get key now)
  then obtain res where "Cachly_get fuel cdc key now s = Some (res, s')" using assms(1) by auto
  then show ?thesis using graded_get assms(2) by blast
next
  case (Op_delete key)
  then show ?thesis using assms graded_delete by simp
next
  case Op_clear
  then have "items s' = []" using assms(1) by (auto simp: Cachly_clear_def updateStats_def)
  then show ?thesis by (rule graded_empty)
next
  case (Op_invalidateByTag tag)
  show ?thesis
  proof (cases "map_of (cache_tags s) tag")
    case None
    then show ?thesis using assms Op_invalidateByTag by (auto simp: invalidateByTag_def)
  next
    case (Some td)
    then obtain s1 where s1: "forEachM (Cachly_delete fuel) (tag_keys td) s = Some s1"
      and s': "s' = s1\<lparr>cache_tags := AList.delete tag (cache_tags s1)\<rparr>"
      using assms(1) Op_invalidateByTag by (auto simp: invalidateByTag_def Let_def split: option.splits)
    have "graded s1" using forEachM_delete_graded [OF s1 assms(2)] .
    moreover have "items s' = items s1" by (simp add: s')
    ultimately show ?thesis using graded_items_eq by blast
  qed
next
  case (Op_createGroup name)
  then have "items s' = items s" using assms(1) by (auto simp: createGroup_def)
  then show ?thesis using assms(2) graded_items_eq by blast
next
  case (Op_addToGroup name key)
  then have "items s' = items s" using assms(1) by (auto simp: addToGroup_def split: option.splits)
  then show ?thesis using assms(2) graded_items_eq by blast
next
  case (Op_removeFromGroup name key)
  then have "items s' = items s" using assms(1) by (auto simp: removeFromGroup_def split: option.splits)
  then show ?thesis using assms(2) graded_items_eq by blast
next
  case (Op_deleteGroup name)
  show ?thesis
  proof (cases "map_of (groups s) name")
    case None
    then show ?thesis using assms Op_deleteGroup by (auto simp: deleteGroup_def)
  next
    case (Some g)
    then obtain s1 where s1: "forEachM (Cachly_delete fuel) (group_keys g) s = Some s1"
      and s': "s' = s1\<lparr>groups := AList.delete name (groups s1)\<rparr>"
      using assms(1) Op_deleteGroup by (auto simp: deleteGroup_def split: option.splits)
    have "graded s1" using forEachM_delete_graded [OF s1 assms(2)] .
    moreover have "items s' = items s1" by (simp add: s')
    ultimately show ?thesis using graded_items_eq by blast
  qed
qed

lemma graded_run:
  assumes "run fuel cdc ops s = Some s'" and "graded s"
  shows "graded s'"
  using assms unfolding run_def
proof (induction ops arbitrary: s)
  case Nil
  then show ?case by simp
next
  case (Cons op ops)
  from Cons.prems(1) obtain s1 where s1: "apply_op fuel cdc op s = Some s1"
    and rest: "forEachM (apply_op fuel cdc) ops s1 = Some s'"
    by (auto split: option.splits)
  show ?case by (rule Cons.IH [OF rest graded_apply_op [OF s1 Cons.prems(2)]])
qed

lemma graded_reachable: "run fuel cdc ops (new_Cachly cfg) = Some s \<Longrightarrow> graded s"
  by (erule graded_run) (simp add: graded_empty new_Cachly_def)

lemma cascade_closed:
  assumes "shrinks s s'" and "k \<notin> resident s'" and "(k, x) \<in> (dependency_edges s)\<^sup>*"
  shows "x \<notin> resident s'"
  using assms(3,2)
proof (induction rule: rtrancl_induct)
  case base
  then show ?case .
next
  case (step y z)
  then have "y \<notin> resident s'" "z \<in> dependents_of s y" by (simp_all add: dependency_edges_def)
  then show ?case using shrinks_cascade [OF assms(1)] by blast
qed

lemma delete_removes_closure:
  assumes "Cachly_delete n key s = Some s'"
  shows "resident s' = resident s - (dependency_edges s)\<^sup>* `` {key}"
proof -
  note d = delete_shrinks [OF assms]
  have sh: "shrinks s s'" using d by simp
  have "x \<notin> resident s'" if "x \<in> (dependency_edges s)\<^sup>* `` {key}" for x
    using cascade_closed [OF sh, of key x] d that by blast
  moreover have "resident s' \<subseteq> resident s" using shrinks_resident [OF sh] by blast
  ultimately show ?thesis using d by blast
qed

text \<open>
  C4. Take any state reached from a new cache by a sequence of public operations, so
  that its dependency graph is one built by \<open>set\<close>, and any key. \<open>delete(key)\<close> returns
  (at every depth bound from some bound on), and the keys resident afterwards are those
  resident before but for the key and all that is reachable from it along the registered
  \<open>dependents\<close> edges: the key and every transitive dependent are removed, nothing else
  is. Each removed entry is gone from the \<open>dependents\<close> set of every key in its
  \<open>dependsOn\<close> and from the \<open>keys\<close> of every tag it carried.
\<close>

theorem delete_cascades:
  assumes "run fuel cdc ops (new_Cachly cfg) = Some st"
  shows "\<exists>n st'. (\<forall>m\<ge>n. Cachly_delete m key st = Some st')
           \<and> resident st' = resident st - (dependency_edges st)\<^sup>* `` {key}
           \<and> (\<forall>x \<in> resident st - resident st'.
                 (\<forall>b \<in> dependsOn_of st x. x \<notin> dependents_of st' b)
               \<and> (\<forall>t \<in> tags_of st x. x \<notin> tag_members st' t))"
proof -
  from graded_reachable [OF assms] obtain r where "ranked r st" unfolding graded_def by blast
  from ranked_delete_returns [OF this, of key] obtain n st' where
    ret: "\<forall>m\<ge>n. Cachly_delete m key st = Some st'" by blast
  then have one: "Cachly_delete n key st = Some st'" by simp
  have sh: "shrinks st st'" using delete_shrinks [OF one] by simp
  have "resident st' = resident st - (dependency_edges st)\<^sup>* `` {key}"
    by (rule delete_removes_closure [OF one])
  moreover have "\<forall>x \<in> resident st - resident st'.
                 (\<forall>b \<in> dependsOn_of st x. x \<notin> dependents_of st' b)
               \<and> (\<forall>t \<in> tags_of st x. x \<notin> tag_members st' t)"
    using shrinks_unlinked [OF sh] shrinks_untagged [OF sh] by blast
  ultimately show ?thesis using ret by blast
qed

text \<open>
  The chain of the claim: after \<open>set(parent)\<close>, \<open>set(child, dependsOn [parent])\<close> and
  \<open>set(grandchild, dependsOn [child])\<close>, \<open>delete(parent)\<close> leaves none of the three resident.
\<close>

theorem delete_cascades_witness:
  "\<exists>st. run 0 example_codec chain_ops (new_Cachly default_config) = Some st
     \<and> resident st = {''parent'', ''child'', ''grandchild''}
     \<and> (\<exists>n st'. (\<forall>m\<ge>n. Cachly_delete m ''parent'' st = Some st') \<and> resident st' = {})"
proof -
  have "\<exists>st. run 0 example_codec chain_ops (new_Cachly default_config) = Some st
     \<and> map (\<lambda>kv. (fst kv, dependents (snd kv))) (items st)
         = [(''parent'', [''child'']), (''child'', [''grandchild'']), (''grandchild'', [])]"
    by (simp add: run_def chain_ops_def depends_on_def eval_defs)
  then obtain st where st: "run 0 example_codec chain_ops (new_Cachly default_config) = Some st"
    and its: "map (\<lambda>kv. (fst kv, dependents (snd kv))) (items st)
         = [(''parent'', [''child'']), (''child'', [''grandchild'']), (''grandchild'', [])]"
    by (elim exE conjE) (rule that)
  obtain x y z where xyz: "items st = [x, y, z]" "fst x = ''parent''" "dependents (snd x) = [''child'']"
      "fst y = ''child''" "dependents (snd y) = [''grandchild'']" "fst z = ''grandchild''"
    using its by (auto simp: map_eq_Cons_conv)
  have res: "resident st = {''parent'', ''child'', ''grandchild''}"
    using xyz by (auto simp: resident_def)
  have "map_of (items st) ''parent'' = Some (snd x)" "map_of (items st) ''child'' = Some (snd y)"
    using xyz by (cases x; cases y; cases z; simp)+
  then have e: "(''parent'', ''child'') \<in> dependency_edges st" "(''child'', ''grandchild'') \<in> dependency_edges st"
    using xyz res by (simp_all add: dependency_edges_def dependents_of_def)
  then have reach: "{''parent'', ''child'', ''grandchild''} \<subseteq> (dependency_edges st)\<^sup>* `` {''parent''}"
    by (auto intro: rtrancl_into_rtrancl [of _ "''child''"])
  from delete_cascades [OF st, of "''parent''"] obtain n st' where
    ret: "\<forall>m\<ge>n. Cachly_delete m ''parent'' st = Some st'"
    and r': "resident st' = resident st - (dependency_edges st)\<^sup>* `` {''parent''}"
    by blast
  have "resident st' = {}" using r' res reach by blast
  then show ?thesis
    using st res ret by blast
qed

subsection \<open>Tag invalidation\<close>

lemma ranked_deletes_return:
  fixes s :: "'v cache"
  assumes "ranked r s"
  shows "\<exists>n s'. \<forall>m\<ge>n. forEachM (Cachly_delete m) ks s = Some s'"
proof -
  define M where "M = Suc (Max (insert 0 (r ` resident s)))"
  have bound: "\<forall>k \<in> resident s. r k < M"
    using finite_resident [of s] by (auto simp: M_def less_Suc_eq_le)
  let ?P = "\<lambda>t :: 'v cache. ranked r t \<and> (\<forall>k \<in> resident t. r k < M)"
  have "\<exists>s'. forEachM (Cachly_delete (Suc M)) ks s = Some s'"
  proof (rule forEachM_terminates [where P = ?P])
    show "?P s" using assms bound by simp
    fix k and t :: "'v cache" assume P: "?P t"
    have "k \<in> resident t \<longrightarrow> M - r k \<le> M" by simp
    with P obtain t' where t': "Cachly_delete (Suc M) k t = Some t'"
      using delete_terminates [of r t M k M] by blast
    have sh: "shrinks t t'" using delete_shrinks [OF t'] by simp
    have "?P t'" using P ranked_shrinks [OF _ sh] shrinks_resident [OF sh] by blast
    then show "\<exists>t'. Cachly_delete (Suc M) k t = Some t' \<and> ?P t'" using t' by blast
  qed
  then obtain s' where s': "forEachM (Cachly_delete (Suc M)) ks s = Some s'" by blast
  have "forEachM (Cachly_delete m) ks s = Some s'" if "Suc M \<le> m" for m
  proof (rule forEachM_mono [OF _ s'])
    fix k and t t' :: "'v cache" assume "Cachly_delete (Suc M) k t = Some t'"
    from delete_fuel_mono [OF this, of "m - Suc M"] show "Cachly_delete m k t = Some t'"
      using that by simp
  qed
  then show ?thesis by blast
qed

lemma deletes_remove_closure:
  fixes s :: "'v cache"
  assumes "forEachM (Cachly_delete n) ks s = Some s'"
  shows "shrinks s s' \<and> resident s' = resident s - (dependency_edges s)\<^sup>* `` set ks"
proof -
  have step: "shrinks t t' \<and> k \<notin> resident t' \<and> resident t - resident t' \<subseteq> (dependency_edges t)\<^sup>* `` {k}"
    if "Cachly_delete n k t = Some t'" for k and t t' :: "'v cache"
    using that by (rule delete_shrinks)
  note d = forEachM_delete_shrinks [of "Cachly_delete n", OF step assms]
  have sh: "shrinks s s'" using d by simp
  have "x \<notin> resident s'" if "x \<in> (dependency_edges s)\<^sup>* `` set ks" for x
  proof -
    from that obtain k where "k \<in> set ks" "(k, x) \<in> (dependency_edges s)\<^sup>*" by blast
    then show ?thesis using cascade_closed [OF sh, of k x] d by blast
  qed
  moreover have "resident s' \<subseteq> resident s" using shrinks_resident [OF sh] by blast
  ultimately show ?thesis using d by blast
qed

text \<open>
  \<open>invalidateByTag\<close> returns \<open>Array.from(tagData.keys)\<close>, the keys listed under the tag
  when it is called. After \<open>set\<close> of \<open>user:1\<close> tagged \<open>users\<close> and of \<open>profile:1\<close> depending
  on \<open>user:1\<close>, \<open>invalidateByTag(users)\<close> removes both entries and returns \<open>[user:1]\<close>:
  the removed dependent is not in the list.
\<close>

theorem invalidateByTag_returns_members_only:
  "Option.bind (run 0 example_codec [Op_set ''user:1'' ''alice'' (tagged [''users'']) 0 tick,
                                     Op_set ''profile:1'' ''bio'' (depends_on [''user:1'']) 0 tick]
                  (new_Cachly default_config))
     (\<lambda>st. map_option (\<lambda>(keys, st'). (map fst (items st), keys, map fst (items st')))
              (invalidateByTag (Suc (Suc 0)) ''users'' st))
   = Some ([''user:1'', ''profile:1''], [''user:1''], [])"
  by (simp add: run_def tagged_def depends_on_def eval_defs invalidateByTag_def invalidateDependents_def
      removeTags_def remove_tag_def removeDependencies_def remove_dependent_def set_delete_def)

text \<open>
  A key listed under the tag that is not resident is returned all the same: \<open>clear\<close>
  leaves the tag index as it is, and \<open>invalidateByTag\<close> then returns a key of which no
  entry was there to remove.
\<close>

lemma invalidateByTag_after_clear_returns_absent_key:
  "Option.bind (run 0 example_codec [Op_set ''user:1'' ''alice'' (tagged [''users'']) 0 tick, Op_clear]
                  (new_Cachly default_config))
     (\<lambda>st. map_option (\<lambda>(keys, st'). (map fst (items st), keys, map fst (items st')))
              (invalidateByTag (Suc 0) ''users'' st))
   = Some ([], [''user:1''], [])"
  by (simp add: run_def tagged_def eval_defs invalidateByTag_def Cachly_clear_def)

text \<open>
  C5 (amended). In every state reached from a new cache by a sequence of public
  operations, \<open>invalidateByTag(t)\<close> returns, and what it returns is the list of keys
  listed under tag \<open>t\<close> in the tag index at the call. The keys resident afterwards are
  those resident before that are neither listed under \<open>t\<close> nor reachable from a listed
  key along the \<open>dependents\<close> edges: the listed keys and their transitive dependents are
  removed, every other entry stays. Tag \<open>t\<close> is not in the tag index afterwards.
\<close>

theorem invalidateByTag_removes_members_and_dependents:
  assumes "run fuel cdc ops (new_Cachly cfg) = Some st"
  shows "\<exists>n st'. (\<forall>m\<ge>n. invalidateByTag m t st = Some (getKeysByTag t st, st'))
           \<and> resident st' = resident st - (dependency_edges st)\<^sup>* `` set (getKeysByTag t st)
           \<and> map_of (cache_tags st') t = None"
proof (cases "map_of (cache_tags st) t")
  case None
  then have "\<forall>m\<ge>0. invalidateByTag m t st = Some (getKeysByTag t st, st)"
    by (simp add: invalidateByTag_def getKeysByTag_def)
  moreover have "resident st = resident st - (dependency_edges st)\<^sup>* `` set (getKeysByTag t st)"
    using None by (simp add: getKeysByTag_def)
  ultimately show ?thesis using None by blast
next
  case (Some td)
  then have keys: "getKeysByTag t st = tag_keys td" by (simp add: getKeysByTag_def)
  from graded_reachable [OF assms] obtain r where "ranked r st" unfolding graded_def by blast
  from ranked_deletes_return [OF this, of "tag_keys td"] obtain n s1 where
    ret: "\<forall>m\<ge>n. forEachM (Cachly_delete m) (tag_keys td) st = Some s1" by blast
  define st' where "st' = s1\<lparr>cache_tags := AList.delete t (cache_tags s1)\<rparr>"
  have a: "\<forall>m\<ge>n. invalidateByTag m t st = Some (getKeysByTag t st, st')"
    using ret Some keys by (simp add: invalidateByTag_def Let_def st'_def)
  from ret have "forEachM (Cachly_delete n) (tag_keys td) st = Some s1" by simp
  from deletes_remove_closure [OF this]
  have "resident s1 = resident st - (dependency_edges st)\<^sup>* `` set (tag_keys td)" by simp
  moreover have "resident st' = resident s1" by (simp add: st'_def resident_def)
  ultimately have b: "resident st' = resident st - (dependency_edges st)\<^sup>* `` set (getKeysByTag t st)"
    using keys by simp
  have c: "map_of (cache_tags st') t = None" by (simp add: st'_def delete_conv')
  show ?thesis by (intro exI [of _ n] exI [of _ st'] conjI) (fact a b c)+
qed

text \<open>
  The tag example: \<open>invalidateByTag(users)\<close> returns \<open>[user:1, user:2]\<close> and leaves
  \<open>post:1\<close> as the only resident key.
\<close>

theorem invalidateByTag_removes_members_and_dependents_witness:
  "\<exists>st. run 0 example_codec users_ops (new_Cachly default_config) = Some st
     \<and> resident st = {''user:1'', ''user:2'', ''post:1''}
     \<and> (\<exists>n st'. (\<forall>m\<ge>n. invalidateByTag m ''users'' st = Some ([''user:1'', ''user:2''], st'))
            \<and> resident st' = {''post:1''} \<and> map_of (cache_tags st') ''users'' = None)"
proof -
  have "\<exists>st. run 0 example_codec users_ops (new_Cachly default_config) = Some st
     \<and> map (\<lambda>kv. (fst kv, dependents (snd kv))) (items st)
         = [(''user:1'', []), (''user:2'', []), (''post:1'', [])]
     \<and> map (\<lambda>kv. (fst kv, tag_keys (snd kv))) (cache_tags st) = [(''users'', [''user:1'', ''user:2''])]"
    by (simp add: run_def users_ops_def tagged_def eval_defs)
  then obtain st where st: "run 0 example_codec users_ops (new_Cachly default_config) = Some st"
    and its: "map (\<lambda>kv. (fst kv, dependents (snd kv))) (items st)
         = [(''user:1'', []), (''user:2'', []), (''post:1'', [])]"
    and tgs: "map (\<lambda>kv. (fst kv, tag_keys (snd kv))) (cache_tags st) = [(''users'', [''user:1'', ''user:2''])]"
    by (elim exE conjE) (rule that)
  obtain x y z where xyz: "items st = [x, y, z]" "fst x = ''user:1''" "dependents (snd x) = []"
      "fst y = ''user:2''" "dependents (snd y) = []" "fst z = ''post:1''" "dependents (snd z) = []"
    using its by (auto simp: map_eq_Cons_conv)
  obtain u where u: "cache_tags st = [u]" "fst u = ''users''" "tag_keys (snd u) = [''user:1'', ''user:2'']"
    using tgs by (auto simp: map_eq_Cons_conv)
  have res: "resident st = {''user:1'', ''user:2'', ''post:1''}"
    using xyz by (auto simp: resident_def)
  have "dependents_of st k = {}" for k
    using xyz by (cases x; cases y; cases z; simp add: dependents_of_def)
  then have "dependency_edges st = {}" by (simp add: dependency_edges_def)
  then have reach: "(dependency_edges st)\<^sup>* `` K = K" for K by simp
  have keys: "getKeysByTag ''users'' st = [''user:1'', ''user:2'']"
    using u by (cases u) (simp add: getKeysByTag_def)
  from invalidateByTag_removes_members_and_dependents [OF st, of "''users''"] obtain n st' where
    ret: "\<forall>m\<ge>n. invalidateByTag m ''users'' st = Some ([''user:1'', ''user:2''], st')"
    and r': "resident st' = resident st - {''user:1'', ''user:2''}"
    and gone: "map_of (cache_tags st') ''users'' = None"
    unfolding keys reach by auto
  have "resident st' = {''post:1''}" using r' res by auto
  then show ?thesis
    using st res ret gone by blast
qed

subsection \<open>Symmetry of the dependency edges\<close>

lemma symmetric_shrinks:
  assumes "symmetric s" and sh: "shrinks s s'"
  shows "symmetric s'"
  unfolding symmetric_def
proof (intro ballI iffI)
  fix a b assume a: "a \<in> resident s'" and b: "b \<in> resident s'"
  note ra = shrinks_resident [OF sh a] and rb = shrinks_resident [OF sh b]
  have same: "dependsOn_of s' a = dependsOn_of s a" using shrinks_same [OF sh a] by simp
  have sym: "a \<in> dependents_of s b \<longleftrightarrow> b \<in> dependsOn_of s a"
    using assms(1) ra rb unfolding symmetric_def by blast
  {
    assume "a \<in> dependents_of s' b"
    then have "a \<in> dependents_of s b" by (rule shrinks_dependents [OF sh])
    then show "b \<in> dependsOn_of s' a" using sym same by simp
  next
    assume "b \<in> dependsOn_of s' a"
    then have "a \<in> dependents_of s b" using sym same by simp
    then show "a \<in> dependents_of s' b" using shrinks_lost [OF sh b, of a] a by blast
  }
qed

lemma symmetric_entries:
  assumes "symmetric s" and sub: "\<And>k item. map_of (items s') k = Some item \<Longrightarrow> map_of (items s) k = Some item"
  shows "symmetric s'"
proof -
  have v: "k \<in> resident s \<and> dependsOn_of s' k = dependsOn_of s k \<and> dependents_of s' k = dependents_of s k"
    if "k \<in> resident s'" for k
  proof -
    from that obtain item where i: "map_of (items s') k = Some item" unfolding resident_iff by blast
    show ?thesis using entry_views [OF i] entry_views [OF sub [OF i]] by simp
  qed
  show ?thesis
    unfolding symmetric_def
  proof (intro ballI)
    fix a b assume a: "a \<in> resident s'" and b: "b \<in> resident s'"
    have "a \<in> dependents_of s b \<longleftrightarrow> b \<in> dependsOn_of s a"
      using assms(1) v [OF a] v [OF b] unfolding symmetric_def by blast
    then show "a \<in> dependents_of s' b \<longleftrightarrow> b \<in> dependsOn_of s' a"
      using v [OF a] v [OF b] by simp
  qed
qed

lemma symmetric_items_eq: "symmetric s \<Longrightarrow> items s' = items s \<Longrightarrow> symmetric s'"
  by (rule symmetric_entries) simp_all

lemma evict_entries:
  assumes d: "distinct (map fst (items s))" and "map_of (items (evict now s)) k = Some item"
  shows "map_of (items s) k = Some item"
proof -
  have key: "map_of (items (evict_key x s)) k = Some item \<Longrightarrow> map_of (items s) k = Some item" for x
    by (simp add: evict_key_def updateStats_def delete_conv' split: if_splits)
  have "\<exists>P. items (evictTTL now s) = filter P (items s)"
    unfolding evictTTL_def Let_def updateStats_def by (intro exI) simp
  then obtain P where P: "items (evictTTL now s) = filter P (items s)" by blast
  have ttl: "map_of (items (evictTTL now s)) k = Some item \<Longrightarrow> map_of (items s) k = Some item"
    unfolding P by (rule map_of_filter_Some [OF d])
  show ?thesis
    using assms(2) key ttl
    by (auto simp: evict_def evictLRU_def evictLFU_def split: policy.splits option.splits if_splits)
qed

lemma evictIfNeeded_entries:
  assumes "evictIfNeeded clk i s = Some s'"
  shows "graded s \<longrightarrow> (\<forall>k item. map_of (items s') k = Some item \<longrightarrow> map_of (items s) k = Some item)"
proof (rule evictIfNeeded.raw_induct [where P = "\<lambda>clk i s s'. graded s \<longrightarrow>
          (\<forall>k item. map_of (items s') k = Some item \<longrightarrow> map_of (items s) k = Some item)", OF _ assms])
  fix f clk i and s s' :: "'v cache"
  assume IH: "\<And>clk i s s'. f clk i s = Some s' \<Longrightarrow> graded s \<longrightarrow>
          (\<forall>k item. map_of (items s') k = Some item \<longrightarrow> map_of (items s) k = Some item)"
    and body: "(if maxItems (config s) \<noteq> 0 \<and> length (items s) > maxItems (config s)
                then f clk (Suc i) (evict (clk i) s) else Some s) = Some s'"
  show "graded s \<longrightarrow> (\<forall>k item. map_of (items s') k = Some item \<longrightarrow> map_of (items s) k = Some item)"
  proof (cases "maxItems (config s) \<noteq> 0 \<and> length (items s) > maxItems (config s)")
    case True
    then have "f clk (Suc i) (evict (clk i) s) = Some s'" using body by simp
    note ih = IH [OF this]
    show ?thesis
    proof (intro impI allI)
      fix k item assume g: "graded s" and m: "map_of (items s') k = Some item"
      have "graded (evict (clk i) s)" using g by (rule graded_evict)
      then have "map_of (items (evict (clk i) s)) k = Some item" using ih m by blast
      then show "map_of (items s) k = Some item"
        using evict_entries g unfolding graded_def by blast
    qed
  next
    case False
    with body have "s' = s" by (auto split: if_splits)
    then show ?thesis by simp
  qed
qed

lemma symmetric_store_entry:
  fixes s :: "'v cache"
  assumes sym: "symmetric s" and link: "links_all s key options"
  shows "symmetric (store_entry cdc key v options now s)"
proof -
  let ?s' = "store_entry cdc key v options now s"
  note v = views_store_entry [where s = s and cdc = cdc and key = key and v = v and options = options and now = now]
  define D where "D = option_list (opt_dependsOn options)"
  have fresh: "key \<notin> resident s" "D \<subseteq> resident s"
    "\<And>b. b \<in> resident s \<Longrightarrow> key \<notin> dependsOn_of s b \<and> key \<notin> dependents_of s b"
    using link unfolding links_all_def D_def by blast+
  have kD: "key \<notin> D" using fresh(1,2) by blast
  have res: "resident ?s' = insert key (resident s)" using v(1) .
  have own: "dependents_of ?s' key = {}" "dependsOn_of ?s' key = D"
    using v(4) [of key] v(2) [of key] kD by (simp_all add: D_def)
  have other: "dependents_of ?s' b = dependents_of s b \<union> (if b \<in> D then {key} else {})"
    "dependsOn_of ?s' b = dependsOn_of s b" if "b \<noteq> key" "b \<in> resident s" for b
    using v(4) [of b] v(2) [of b] that by (simp_all add: D_def)
  show ?thesis
    unfolding symmetric_def
  proof (intro ballI)
    fix a b assume "a \<in> resident ?s'" and "b \<in> resident ?s'"
    then have a: "a = key \<or> (a \<noteq> key \<and> a \<in> resident s)" and b: "b = key \<or> (b \<noteq> key \<and> b \<in> resident s)"
      using res fresh(1) by auto
    show "a \<in> dependents_of ?s' b \<longleftrightarrow> b \<in> dependsOn_of ?s' a"
    proof (cases "a = key")
      case ak: True
      show ?thesis
      proof (cases "b = key")
        case True
        then show ?thesis using ak own kD by simp
      next
        case False
        then have br: "b \<in> resident s" using b by simp
        have "key \<notin> dependents_of s b" using fresh(3) [OF br] by simp
        then show ?thesis using ak own(2) other(1) [OF False br] by simp
      qed
    next
      case an: False
      then have ar: "a \<in> resident s" using a by simp
      show ?thesis
      proof (cases "b = key")
        case True
        have "key \<notin> dependsOn_of s a" using fresh(3) [OF ar] by simp
        then show ?thesis using True own(1) other(2) [OF an ar] by simp
      next
        case False
        then have br: "b \<in> resident s" using b by simp
        have "a \<in> dependents_of s b \<longleftrightarrow> b \<in> dependsOn_of s a"
          using sym ar br unfolding symmetric_def by blast
        then show ?thesis using other(1) [OF False br] other(2) [OF an ar] an by simp
      qed
    qed
  qed
qed

lemma symmetric_set:
  assumes "Cachly_set cdc key v options now clk s = Some s'" and "symmetric s" and "graded s"
    and "links_all s key options"
  shows "symmetric s'"
proof -
  let ?s1 = "store_entry cdc key v options now s"
  have g: "graded ?s1" by (rule graded_store_entry [OF assms(3)])
  have s1: "symmetric ?s1" by (rule symmetric_store_entry [OF assms(2,4)])
  have "\<forall>k item. map_of (items s') k = Some item \<longrightarrow> map_of (items ?s1) k = Some item"
    using evictIfNeeded_entries [OF assms(1) [unfolded Cachly_set_def]] g by simp
  then show ?thesis using symmetric_entries [OF s1] by blast
qed

lemma symmetric_delete:
  assumes "Cachly_delete n key s = Some s'" and "symmetric s"
  shows "symmetric s'"
  using delete_shrinks [OF assms(1)] symmetric_shrinks [OF assms(2)] by simp

lemma symmetric_deletes:
  fixes s :: "'v cache"
  assumes "forEachM (Cachly_delete n) ks s = Some s'" and "symmetric s"
  shows "symmetric s'"
  using deletes_remove_closure [OF assms(1)] symmetric_shrinks [OF assms(2)] by simp

lemma symmetric_touch:
  assumes "symmetric s" and "map_of (items s) key = Some item"
  shows "symmetric (touch key item now s)"
proof -
  let ?s' = "touch key item now s"
  have "items ?s' = AList.update key (item\<lparr>accessCount := accessCount item + 1, lastAccessed := now\<rparr>) (items s)"
    by (simp add: touch_def)
  note v = views_put [OF this]
  note e = entry_views [OF assms(2)]
  have r: "resident ?s' = resident s" using v(1) e by auto
  have "dependsOn_of ?s' k = dependsOn_of s k" "dependents_of ?s' k = dependents_of s k" for k
    using v(2) [of k] v(3) [of k] e by simp_all
  then show ?thesis using assms(1) r by (simp add: symmetric_def)
qed

lemma symmetric_get:
  assumes "Cachly_get n cdc key now s = Some (res, s')" and "symmetric s"
  shows "symmetric s'"
proof (cases "map_of (items s) key")
  case None
  then have "items s' = items s" using assms(1) by (auto simp: Cachly_get_def count_miss_def)
  then show ?thesis using assms(2) symmetric_items_eq by blast
next
  case (Some item)
  show ?thesis
  proof (cases "isExpired now item")
    case True
    then obtain s1 where s1: "Cachly_delete n key s = Some s1" and s': "s' = count_miss s1"
      using assms(1) Some by (auto simp: Cachly_get_def split: option.splits)
    have "symmetric s1" using symmetric_delete [OF s1 assms(2)] .
    moreover have "items s' = items s1" by (simp add: s' count_miss_def)
    ultimately show ?thesis using symmetric_items_eq by blast
  next
    case False
    then have "s' = count_hit (touch key item now s)"
      using assms(1) Some
      by (auto simp: Cachly_get_def Let_def split: option.splits if_splits stored.splits)
    then have "items s' = items (touch key item now s)" by (simp add: count_hit_def)
    then show ?thesis using symmetric_touch [OF assms(2) Some] symmetric_items_eq by blast
  qed
qed

lemma symmetric_empty: "items s = [] \<Longrightarrow> symmetric s"
  by (simp add: symmetric_def resident_def)

lemma symmetric_apply_op:
  assumes "apply_op fuel cdc op s = Some s'" and "symmetric s" and "graded s" and "op_links op s"
  shows "symmetric s'"
proof (cases op)
  case (Op_set key v options now clk)
  then show ?thesis using assms symmetric_set by simp
next
  case (Op_get key now)
  then obtain res where "Cachly_get fuel cdc key now s = Some (res, s')" using assms(1) by auto
  then show ?thesis using symmetric_get assms(2) by blast
next
  case (Op_delete key)
  then show ?thesis using assms symmetric_delete by simp
next
  case Op_clear
  then have "items s' = []" using assms(1) by (auto simp: Cachly_clear_def updateStats_def)
  then show ?thesis by (rule symmetric_empty)
next
  case (Op_invalidateByTag tag)
  show ?thesis
  proof (cases "map_of (cache_tags s) tag")
    case None
    then show ?thesis using assms Op_invalidateByTag by (auto simp: invalidateByTag_def)
  next
    case (Some td)
    then obtain s1 where s1: "forEachM (Cachly_delete fuel) (tag_keys td) s = Some s1"
      and s': "s' = s1\<lparr>cache_tags := AList.delete tag (cache_tags s1)\<rparr>"
      using assms(1) Op_invalidateByTag by (auto simp: invalidateByTag_def Let_def split: option.splits)
    have "symmetric s1" using symmetric_deletes [OF s1 assms(2)] .
    moreover have "items s' = items s1" by (simp add: s')
    ultimately show ?thesis using symmetric_items_eq by blast
  qed
next
  case (Op_createGroup name)
  then have "items s' = items s" using assms(1) by (auto simp: createGroup_def)
  then show ?thesis using assms(2) symmetric_items_eq by blast
next
  case (Op_addToGroup name key)
  then have "items s' = items s" using assms(1) by (auto simp: addToGroup_def split: option.splits)
  then show ?thesis using assms(2) symmetric_items_eq by blast
next
  case (Op_removeFromGroup name key)
  then have "items s' = items s" using assms(1) by (auto simp: removeFromGroup_def split: option.splits)
  then show ?thesis using assms(2) symmetric_items_eq by blast
next
  case (Op_deleteGroup name)
  show ?thesis
  proof (cases "map_of (groups s) name")
    case None
    then show ?thesis using assms Op_deleteGroup by (auto simp: deleteGroup_def)
  next
    case (Some g)
    then obtain s1 where s1: "forEachM (Cachly_delete fuel) (group_keys g) s = Some s1"
      and s': "s' = s1\<lparr>groups := AList.delete name (groups s1)\<rparr>"
      using assms(1) Op_deleteGroup by (auto simp: deleteGroup_def split: option.splits)
    have "symmetric s1" using symmetric_deletes [OF s1 assms(2)] .
    moreover have "items s' = items s1" by (simp add: s')
    ultimately show ?thesis using symmetric_items_eq by blast
  qed
qed

lemma symmetric_run:
  assumes "run fuel cdc ops s = Some s'" and "symmetric s" and "graded s" and "sets_link fuel cdc ops s"
  shows "symmetric s'"
  using assms unfolding run_def
proof (induction ops arbitrary: s)
  case Nil
  then show ?case by simp
next
  case (Cons op ops)
  from Cons.prems(1) obtain s1 where s1: "apply_op fuel cdc op s = Some s1"
    and rest: "forEachM (apply_op fuel cdc) ops s1 = Some s'"
    by (auto split: option.splits)
  have l: "op_links op s" "sets_link fuel cdc ops s1" using Cons.prems(4) s1 by simp_all
  have "symmetric s1" by (rule symmetric_apply_op [OF s1 Cons.prems(2,3) l(1)])
  moreover have "graded s1" by (rule graded_apply_op [OF s1 Cons.prems(3)])
  ultimately show ?case using Cons.IH [OF rest _ _ l(2)] by blast
qed

lemma asymmetric_pair:
  assumes "map_of (items s) a = Some ia" and "map_of (items s) b = Some ib"
    and "b \<in> set (dependsOn ia)" and "a \<notin> set (dependents ib)"
  shows "\<not> symmetric s"
  using entry_views [OF assms(1)] entry_views [OF assms(2)] assms(3,4)
  unfolding symmetric_def by blast

text \<open>
  \<open>set(child, dependsOn [parent])\<close> before \<open>parent\<close> has an entry registers no edge
  (\<open>if (depItem)\<close> in \<open>updateDependencies\<close>); after \<open>set(parent)\<close> both keys are resident,
  \<open>parent\<close> is in the \<open>dependsOn\<close> of \<open>child\<close>, and \<open>child\<close> is not in the \<open>dependents\<close> of
  \<open>parent\<close>.
\<close>

theorem dependency_named_before_it_is_set_is_not_linked:
  "map_option (\<lambda>st. (map (\<lambda>kv. (fst kv, dependsOn (snd kv), dependents (snd kv))) (items st), symmetric st))
     (run 0 example_codec [Op_set ''child'' ''child-value'' (depends_on [''parent'']) 0 tick,
                           Op_set ''parent'' ''parent-value'' no_options 0 tick]
        (new_Cachly default_config))
   = Some ([(''child'', [''parent''], []), (''parent'', [], [])], False)"
proof -
  let ?run = "run 0 example_codec [Op_set ''child'' ''child-value'' (depends_on [''parent'']) 0 tick,
                           Op_set ''parent'' ''parent-value'' no_options 0 tick]
        (new_Cachly default_config)"
  have "\<exists>st. ?run = Some st
     \<and> map (\<lambda>kv. (fst kv, dependsOn (snd kv), dependents (snd kv))) (items st)
         = [(''child'', [''parent''], []), (''parent'', [], [])]"
    by (simp add: run_def depends_on_def eval_defs)
  then obtain st where st: "?run = Some st"
    and its: "map (\<lambda>kv. (fst kv, dependsOn (snd kv), dependents (snd kv))) (items st)
         = [(''child'', [''parent''], []), (''parent'', [], [])]"
    by (elim exE conjE) (rule that)
  obtain x y where xy: "items st = [x, y]" "fst x = ''child''" "dependsOn (snd x) = [''parent'']"
      "fst y = ''parent''" "dependents (snd y) = []"
    using its by (auto simp: map_eq_Cons_conv)
  have "map_of (items st) ''child'' = Some (snd x)" "map_of (items st) ''parent'' = Some (snd y)"
    using xy by (cases x; cases y; simp)+
  then have "\<not> symmetric st"
    by (rule asymmetric_pair) (simp_all add: xy)
  then show ?thesis unfolding st using its by simp
qed

text \<open>
  A \<open>set\<close> of a resident key stores a new entry with no dependents: after the chain
  \<open>set(parent)\<close>, \<open>set(child, dependsOn [parent])\<close>, a second \<open>set(parent)\<close> leaves \<open>child\<close>
  naming \<open>parent\<close> while \<open>parent\<close> no longer lists \<open>child\<close>.
\<close>

lemma overwrite_drops_dependents:
  "map_option (\<lambda>st. (map (\<lambda>kv. (fst kv, dependsOn (snd kv), dependents (snd kv))) (items st), symmetric st))
     (run 0 example_codec [Op_set ''parent'' ''parent-value'' no_options 0 tick,
                           Op_set ''child'' ''child-value'' (depends_on [''parent'']) 0 tick,
                           Op_set ''parent'' ''new-value'' no_options 0 tick]
        (new_Cachly default_config))
   = Some ([(''parent'', [], []), (''child'', [''parent''], [])], False)"
proof -
  let ?run = "run 0 example_codec [Op_set ''parent'' ''parent-value'' no_options 0 tick,
                           Op_set ''child'' ''child-value'' (depends_on [''parent'']) 0 tick,
                           Op_set ''parent'' ''new-value'' no_options 0 tick]
        (new_Cachly default_config)"
  have "\<exists>st. ?run = Some st
     \<and> map (\<lambda>kv. (fst kv, dependsOn (snd kv), dependents (snd kv))) (items st)
         = [(''parent'', [], []), (''child'', [''parent''], [])]"
    by (simp add: run_def depends_on_def eval_defs)
  then obtain st where st: "?run = Some st"
    and its: "map (\<lambda>kv. (fst kv, dependsOn (snd kv), dependents (snd kv))) (items st)
         = [(''parent'', [], []), (''child'', [''parent''], [])]"
    by (elim exE conjE) (rule that)
  obtain x y where xy: "items st = [y, x]" "fst x = ''child''" "dependsOn (snd x) = [''parent'']"
      "fst y = ''parent''" "dependents (snd y) = []"
    using its by (auto simp: map_eq_Cons_conv)
  have "map_of (items st) ''child'' = Some (snd x)" "map_of (items st) ''parent'' = Some (snd y)"
    using xy by (cases x; cases y; simp)+
  then have "\<not> symmetric st"
    by (rule asymmetric_pair) (simp_all add: xy)
  then show ?thesis unfolding st using its by simp
qed

text \<open>
  C3 (amended). In every state reached from a new cache by a sequence of public
  operations (\<open>set\<close> with the evictions it triggers, \<open>get\<close>, \<open>delete\<close>, tag invalidation,
  group operations and group deletion, \<open>clear\<close>) in which every \<open>set\<close> stores a key that
  has no entry and is named by no resident entry, and names in \<open>dependsOn\<close> only keys
  that are resident, the dependency edges are symmetric: for any two resident keys \<open>a\<close>
  and \<open>b\<close>, \<open>a\<close> is in the \<open>dependents\<close> of \<open>b\<close> if and only if \<open>b\<close> is in the
  \<open>dependsOn\<close> of \<open>a\<close>.
\<close>

theorem dependency_edges_symmetric:
  assumes "run fuel cdc ops (new_Cachly cfg) = Some st" and "sets_link fuel cdc ops (new_Cachly cfg)"
  shows "symmetric st"
proof (rule symmetric_run [OF assms(1) _ _ assms(2)])
  show "symmetric (new_Cachly cfg)" by (simp add: symmetric_empty new_Cachly_def)
  show "graded (new_Cachly cfg)" by (simp add: graded_empty new_Cachly_def)
qed

text \<open>
  The chain, a read and a deletion: \<open>parent\<close> and \<open>child\<close> remain, with the edge between
  them recorded on both sides.
\<close>

theorem dependency_edges_symmetric_witness:
  "sets_link (Suc (Suc 0)) example_codec linked_ops (new_Cachly default_config)
   \<and> (\<exists>st. run (Suc (Suc 0)) example_codec linked_ops (new_Cachly default_config) = Some st
          \<and> map (\<lambda>kv. (fst kv, dependsOn (snd kv), dependents (snd kv))) (items st)
               = [(''parent'', [], [''child'']), (''child'', [''parent''], [])]
          \<and> symmetric st)"
proof -
  have l: "sets_link (Suc (Suc 0)) example_codec linked_ops (new_Cachly default_config)"
    by (simp add: linked_ops_def chain_ops_def depends_on_def links_all_def resident_def
        dependsOn_of_def dependents_of_def option_list_def eval_defs Cachly_get_def isExpired_def
        touch_def count_hit_def invalidateDependents_def
        removeTags_def remove_tag_def removeDependencies_def remove_dependent_def set_delete_def)
  have "\<exists>st. run (Suc (Suc 0)) example_codec linked_ops (new_Cachly default_config) = Some st
          \<and> map (\<lambda>kv. (fst kv, dependsOn (snd kv), dependents (snd kv))) (items st)
               = [(''parent'', [], [''child'']), (''child'', [''parent''], [])]"
    by (simp add: run_def linked_ops_def chain_ops_def depends_on_def eval_defs Cachly_get_def isExpired_def
        touch_def count_hit_def invalidateDependents_def
        removeTags_def remove_tag_def removeDependencies_def remove_dependent_def set_delete_def)
  then obtain st where st: "run (Suc (Suc 0)) example_codec linked_ops (new_Cachly default_config) = Some st"
    and its: "map (\<lambda>kv. (fst kv, dependsOn (snd kv), dependents (snd kv))) (items st)
               = [(''parent'', [], [''child'']), (''child'', [''parent''], [])]"
    by (elim exE conjE) (rule that)
  have sym: "symmetric st" by (rule dependency_edges_symmetric [OF st l])
  show ?thesis by (intro conjI exI [of _ st]) (fact l st its sym)+
qed

end
